theory Spec2Isabelle
  imports Main "HOL-Library.Sublist"
begin

section \<open>Strings and the library functions the program calls\<close>

text \<open>
  Strings are \<^typ>\<open>string\<close>, lists of 8-bit characters (a Python \<open>str\<close> in UTF-8).
  \<open>str.lower\<close> and \<open>str.upper\<close> are modelled on the ASCII letters and leave every
  other character alone. The program lowers a string only to compare it with \<open>exit\<close> or
  with one of the image extensions, and raises only the role labels \<open>user\<close> and
  \<open>assistant\<close> to upper case.
\<close>

definition nl :: string where
  "nl = [CHR 0x0A]"

definition ascii_uppercase :: string where
  "ascii_uppercase = ''ABCDEFGHIJKLMNOPQRSTUVWXYZ''"

definition ascii_lowercase :: string where
  "ascii_lowercase = ''abcdefghijklmnopqrstuvwxyz''"

definition lower_char :: "char \<Rightarrow> char" where
  "lower_char c =
     (case map_of (zip ascii_uppercase ascii_lowercase) c of None \<Rightarrow> c | Some d \<Rightarrow> d)"

definition upper_char :: "char \<Rightarrow> char" where
  "upper_char c =
     (case map_of (zip ascii_lowercase ascii_uppercase) c of None \<Rightarrow> c | Some d \<Rightarrow> d)"

definition lower :: "string \<Rightarrow> string" where
  "lower s = map lower_char s"

definition upper :: "string \<Rightarrow> string" where
  "upper s = map upper_char s"

text \<open>\<open>s.endswith(suffix)\<close> and \<open>s.startswith(prefix)\<close>.\<close>

definition endswith :: "string \<Rightarrow> string \<Rightarrow> bool" where
  "endswith s suf =
     (length suf \<le> length s \<and> drop (length s - length suf) s = suf)"

definition startswith :: "string \<Rightarrow> string \<Rightarrow> bool" where
  "startswith s pre = (take (length pre) s = pre)"

text \<open>\<open>s.rfind(c)\<close>: the highest index holding \<open>c\<close>, or \<open>-1\<close>.\<close>

fun rfind :: "string \<Rightarrow> char \<Rightarrow> int" where
  "rfind [] c = - 1"
| "rfind (x # xs) c =
     (let r = rfind xs c in if 0 \<le> r then r + 1 else if x = c then 0 else - 1)"

text \<open>
  \<open>os.path.join(a, b)\<close> of \<open>posixpath\<close>, for two components: an absolute second
  component replaces the first, otherwise the two are joined by one separator.
\<close>

definition os_path_join :: "string \<Rightarrow> string \<Rightarrow> string" where
  "os_path_join a b =
     (if startswith b ''/'' then b
      else if a = [] \<or> endswith a ''/'' then a @ b
      else a @ ''/'' @ b)"

text \<open>
  \<open>os.path.splitext(p)\<close> of \<open>posixpath\<close>: the extension starts at the last dot of
  the last path component, unless that component has only dots before it; then the
  extension is empty.
\<close>

definition splitext :: "string \<Rightarrow> string \<times> string" where
  "splitext p =
     (let sepIndex = rfind p CHR ''/'';
          dotIndex = rfind p CHR ''.''
      in if sepIndex < dotIndex \<and>
            list_ex (\<lambda>c. c \<noteq> CHR ''.'')
              (take (nat (dotIndex - (sepIndex + 1))) (drop (nat (sepIndex + 1)) p))
         then (take (nat dotIndex) p, drop (nat dotIndex) p)
         else (p, []))"

text \<open>
  \<open>base64.b64encode(data).decode('utf-8')\<close>: three bytes become four characters of the
  standard alphabet; a last group of one or two bytes is padded with \<open>=\<close>.
\<close>

definition b64_alphabet :: string where
  "b64_alphabet = ''ABCDEFGHIJKLMNOPQRSTUVWXYZabcdefghijklmnopqrstuvwxyz0123456789+/''"

definition b64_char :: "nat \<Rightarrow> char" where
  "b64_char n = b64_alphabet ! (n mod 64)"

fun b64encode :: "string \<Rightarrow> string" where
  "b64encode [] = []"
| "b64encode [a] =
     (let x = (of_char a :: nat)
      in [b64_char (x div 4), b64_char ((x mod 4) * 16), CHR ''='', CHR ''=''])"
| "b64encode [a, b] =
     (let x = (of_char a :: nat); y = (of_char b :: nat)
      in [b64_char (x div 4), b64_char ((x mod 4) * 16 + y div 16),
          b64_char ((y mod 16) * 4), CHR ''=''])"
| "b64encode (a # b # c # rest) =
     (let x = (of_char a :: nat); y = (of_char b :: nat); z = (of_char c :: nat)
      in [b64_char (x div 4), b64_char ((x mod 4) * 16 + y div 16),
          b64_char ((y mod 16) * 4 + z div 64), b64_char (z mod 64)] @ b64encode rest)"

section \<open>Data model\<close>

text \<open>
  A message is a dictionary with the keys \<open>role\<close> and \<open>content\<close>. The content is a plain
  string, or a list of parts; a part is \<open>{"type": "text", "text": ...}\<close> or
  \<open>{"type": "image", "source": {"type": ..., "media_type": ..., "data": ...}}\<close>.
\<close>

record source =
  source_type :: string
  media_type :: string
  data :: string

datatype part = TextPart string | ImagePart source

datatype content = Str string | Parts "part list"

record message =
  role :: string
  content :: content

text \<open>The keyword arguments of \<open>client.messages.create\<close>.\<close>

record request =
  model :: string
  system :: string
  request_messages :: "message list"
  max_tokens :: nat

text \<open>
  A reply's \<open>content\<close> is a list of blocks. A text block has the attribute \<open>text\<close>; any
  other block has not, and reading \<open>.text\<close> from it raises \<open>AttributeError\<close>.
\<close>

datatype block = TextBlock string | OtherBlock

datatype error =
    EOFError
  | OSError string
  | APIError
  | IndexError
  | AttributeError

text \<open>
  What \<open>os.path.exists('images')\<close> and \<open>os.listdir('images')\<close> find: nothing, a path
  that cannot be listed (a regular file, a directory without permission), or the names
  of a directory in the order the operating system returns them.
\<close>

datatype images_path = Absent | Unlistable | Listing "string list"

text \<open>
  The surroundings of one run: the \<open>images\<close> path, the remote model (\<open>None\<close> when the
  request raises) and whether a file can be opened for writing. The history grows with
  every turn, so no two requests of a run are the same, and a function of the request
  stands for any sequence of replies.
\<close>

record env =
  images_dir :: images_path
  remote :: "request \<Rightarrow> block list option"
  can_write :: "string \<Rightarrow> bool"

text \<open>
  The state of a run: the variable \<open>messages\<close>, the lines still to be read from the
  console, what has been printed, the requests sent so far, and the files (a path with
  no entry cannot be opened for reading).
\<close>

record state =
  messages :: "message list"
  stdin :: "string list"
  stdout :: "string list"
  requests :: "request list"
  files :: "string \<rightharpoonup> string"

definition start :: "string list \<Rightarrow> (string \<rightharpoonup> string) \<Rightarrow> state" where
  "start lines fs =
     \<lparr>messages = [], stdin = lines, stdout = [], requests = [], files = fs\<rparr>"

section \<open>The program\<close>

definition print :: "string \<Rightarrow> state \<Rightarrow> state" where
  "print s st = st\<lparr>stdout := stdout st @ [s @ nl]\<rparr>"

text \<open>\<open>input(prompt)\<close> writes the prompt and reads one line; at end of input it raises.\<close>

definition input :: "string \<Rightarrow> state \<Rightarrow> (error \<times> state) + (string \<times> state)" where
  "input prompt st =
     (let st1 = st\<lparr>stdout := stdout st @ [prompt]\<rparr>
      in case stdin st1 of
           [] \<Rightarrow> Inl (EOFError, st1)
         | line # rest \<Rightarrow> Inr (line, st1\<lparr>stdin := rest\<rparr>))"

definition encode_image :: "state \<Rightarrow> string \<Rightarrow> error + string" where
  "encode_image st image_path =
     (case files st image_path of
        None \<Rightarrow> Inl (OSError image_path)
      | Some bytes \<Rightarrow> Inr (b64encode bytes))"

definition image_extensions :: "string list" where
  "image_extensions = [''.jpg'', ''.jpeg'', ''.png'', ''.gif'', ''.webp'']"

text \<open>The loop of \<open>get_image_files\<close> over the directory listing.\<close>

fun scan_listing :: "string list \<Rightarrow> string list \<Rightarrow> string list" where
  "scan_listing [] image_files = image_files"
| "scan_listing (file # rest) image_files =
     scan_listing rest
       (if list_ex (\<lambda>ext. endswith (lower file) ext) image_extensions
        then image_files @ [os_path_join ''images'' file]
        else image_files)"

definition get_image_files :: "env \<Rightarrow> error + string list" where
  "get_image_files e =
     (case images_dir e of
        Absent \<Rightarrow> Inr []
      | Unlistable \<Rightarrow> Inl (OSError ''images'')
      | Listing names \<Rightarrow> Inr (scan_listing names []))"

definition system_prompt :: string where
  "system_prompt = concat
     [nl,
      ''    You are an expert review assistant that helps transform product experiences into high-quality Amazon reviews.'', nl,
      ''    '', nl,
      ''    Use the Amazon Review Framework to guide this process. The framework consists of:'', nl,
      ''    1. Analyzing the initial review and any provided product images'', nl,
      ''    2. Asking targeted questions to gather missing context'', nl,
      ''    3. Creating an enhanced draft based on the gathered information'', nl,
      ''    4. Refining the review based on user feedback'', nl,
      ''    '', nl,
      ''    IMPORTANT: You MUST follow these steps in order. After analyzing the initial review and images, '', nl,
      ''    ask questions to gather more information BEFORE creating any draft.'', nl,
      ''    '', nl,
      ''    When analyzing images, use your judgment to identify important product aspects that could enhance the review.'', nl,
      ''    Consider how the images complement or contradict the written review, and what additional insights they provide.'', nl,
      ''    '']"

definition images_sentence :: string where
  "images_sentence =
     ''I'm also sharing some images of the product for your analysis:'' @ nl"

text \<open>The loop over \<open>image_files\<close> that fills \<open>image_content\<close>; the first file that cannot
  be read ends it with the error.\<close>

fun encode_images :: "state \<Rightarrow> string list \<Rightarrow> part list \<Rightarrow> error + part list" where
  "encode_images st [] image_content = Inr image_content"
| "encode_images st (image_path # rest) image_content =
     (case encode_image st image_path of
        Inl err \<Rightarrow> Inl err
      | Inr image_base64 \<Rightarrow>
          encode_images st rest
            (image_content @
               [ImagePart \<lparr>source_type = ''base64'',
                           media_type = ''image/'' @ drop 1 (snd (splitext image_path)),
                           data = image_base64\<rparr>]))"

text \<open>
  \<open>create_amazon_review\<close> up to the loop: the banner, the initial review, the images and
  the list \<open>messages\<close> with its first message.
\<close>

definition first_message :: "env \<Rightarrow> state \<Rightarrow> (error \<times> state) + state" where
  "first_message e st =
     (let st1 = print (nl @ ''=== AMAZON REVIEW FRAMEWORK ==='') st;
          st2 = print (nl @ ''Please enter your initial product experience/review:'') st1
      in case input ''> '' st2 of
           Inl x \<Rightarrow> Inl x
         | Inr (initial_review, st3) \<Rightarrow>
             (case get_image_files e of
                Inl err \<Rightarrow> Inl (err, st3)
              | Inr image_files \<Rightarrow>
                  (let first_message_content =
                         ''Here is my initial product review:'' @ nl @ nl @ initial_review @ nl @ nl;
                       enter_loop = (\<lambda>first_message_content image_content.
                         print (nl @ ''Starting conversation with Claude. Type 'exit' to end the session.'')
                           (st3\<lparr>messages :=
                              [\<lparr>role = ''user'',
                                content = Parts ([TextPart first_message_content] @ image_content)\<rparr>]\<rparr>))
                   in if image_files \<noteq> [] then
                        (case encode_images st3 image_files [] of
                           Inl err \<Rightarrow> Inl (err, st3)
                         | Inr image_content \<Rightarrow>
                             Inr (enter_loop (first_message_content @ images_sentence) image_content))
                      else Inr (enter_loop first_message_content []))))"

text \<open>The loop that writes the transcript; \<open>f\<close> is what has been written so far.\<close>

fun text_parts :: "part list \<Rightarrow> string list" where
  "text_parts [] = []"
| "text_parts (TextPart t # items) = t # text_parts items"
| "text_parts (ImagePart _ # items) = text_parts items"

fun write_messages :: "message list \<Rightarrow> string \<Rightarrow> string" where
  "write_messages [] f = f"
| "write_messages (m # rest) f =
     write_messages rest
       (case content m of
          Str s \<Rightarrow> f @ upper (role m) @ '': '' @ s @ nl @ nl
        | Parts items \<Rightarrow> f @ upper (role m) @ '': '' @ concat (text_parts items) @ nl @ nl)"

definition transcript_name :: string where
  "transcript_name = ''amazon_review_conversation.txt''"

text \<open>The keyword arguments of the request, for the conversation so far.\<close>

definition request_of :: "message list \<Rightarrow> request" where
  "request_of msgs =
     \<lparr>model = ''claude-3-7-sonnet-20250219'', system = system_prompt,
      request_messages = msgs, max_tokens = 4000\<rparr>"

text \<open>The first half of the loop body: the request, the reply and its message.\<close>

definition model_reply :: "env \<Rightarrow> state \<Rightarrow> (error \<times> state) + state" where
  "model_reply e st =
     (let req = request_of (messages st);
          st1 = st\<lparr>requests := requests st @ [req]\<rparr>
      in case remote e req of
           None \<Rightarrow> Inl (APIError, st1)
         | Some [] \<Rightarrow> Inl (IndexError, st1)
         | Some (OtherBlock # _) \<Rightarrow> Inl (AttributeError, st1)
         | Some (TextBlock assistant_message # _) \<Rightarrow>
             (let st2 = print (nl @ ''Claude: '' @ assistant_message) st1
              in Inr (st2\<lparr>messages := messages st2 @
                        [\<lparr>role = ''assistant'', content = Str assistant_message\<rparr>]\<rparr>)))"

text \<open>
  The second half: the operator's line. The result carries the new value of
  \<open>conversation_active\<close>.
\<close>

definition user_turn :: "env \<Rightarrow> state \<Rightarrow> (error \<times> state) + (bool \<times> state)" where
  "user_turn e st =
     (case input ''> '' (print (nl @ ''You (type 'exit' to end): '') st) of
        Inl x \<Rightarrow> Inl x
      | Inr (user_response, st1) \<Rightarrow>
          if lower user_response = ''exit'' then
            (if can_write e transcript_name then
               (let st2 = st1\<lparr>files := (files st1)(transcript_name \<mapsto>
                                          write_messages (messages st1) [])\<rparr>
                in Inr (False,
                        print (nl @ ''Conversation saved to 'amazon_review_conversation.txt'' @ [CHR 0x27]) st2))
             else Inl (OSError transcript_name, st1))
          else
            Inr (True, st1\<lparr>messages := messages st1 @
                         [\<lparr>role = ''user'', content = Str user_response\<rparr>]\<rparr>))"

definition loop_body :: "env \<Rightarrow> state \<Rightarrow> (error \<times> state) + (bool \<times> state)" where
  "loop_body e st =
     (case model_reply e st of
        Inl x \<Rightarrow> Inl x
      | Inr st1 \<Rightarrow> user_turn e st1)"

text \<open>\<open>while conversation_active:\<close> Every turn reads a line, so the loop ends with the
  console input at the latest.\<close>

function conversation_loop :: "env \<Rightarrow> state \<Rightarrow> (error \<times> state) + state" where
  "conversation_loop e st =
     (case loop_body e st of
        Inl x \<Rightarrow> Inl x
      | Inr (conversation_active, st1) \<Rightarrow>
          if conversation_active then conversation_loop e st1 else Inr st1)"
  by pat_completeness auto
termination
  by (relation "measure (\<lambda>(e, st). length (stdin st))")
    (auto simp: loop_body_def model_reply_def user_turn_def input_def print_def Let_def
          split: sum.splits option.splits list.splits block.splits if_splits)

declare conversation_loop.simps [simp del]

definition create_amazon_review :: "env \<Rightarrow> state \<Rightarrow> (error \<times> state) + state" where
  "create_amazon_review e st =
     (case first_message e st of
        Inl x \<Rightarrow> Inl x
      | Inr st1 \<Rightarrow> conversation_loop e st1)"

section \<open>Observing a run\<close>

text \<open>The state in which a run ends, normally or with an error.\<close>

definition final_state :: "(error \<times> state) + state \<Rightarrow> state" where
  "final_state r = (case r of Inl (err, st) \<Rightarrow> st | Inr st \<Rightarrow> st)"

text \<open>
  The state at the head of the loop after \<open>n\<close> complete turns, each with a reply of the
  model and a line of the operator that is not the sentinel.
\<close>

fun after_turns :: "env \<Rightarrow> nat \<Rightarrow> state \<Rightarrow> state option" where
  "after_turns e 0 st = Some st"
| "after_turns e (Suc n) st =
     (case loop_body e st of
        Inl x \<Rightarrow> None
      | Inr (conversation_active, st1) \<Rightarrow>
          if conversation_active then after_turns e n st1 else None)"

text \<open>A file name ends in one of the recognised extensions, whatever the case of its
  letters.\<close>

definition has_image_extension :: "string \<Rightarrow> bool" where
  "has_image_extension name =
     (\<exists>ext \<in> set image_extensions.
        length ext \<le> length name \<and> lower (drop (length name - length ext) name) = lower ext)"

text \<open>The first text segment of a reply, wherever it stands among the blocks.\<close>

fun first_text :: "block list \<Rightarrow> string option" where
  "first_text [] = None"
| "first_text (TextBlock t # blocks) = Some t"
| "first_text (OtherBlock # blocks) = first_text blocks"

text \<open>The text of a message: image parts do not count.\<close>

definition message_text :: "content \<Rightarrow> string" where
  "message_text c =
     (case c of
        Str s \<Rightarrow> s
      | Parts ps \<Rightarrow> concat (map (\<lambda>p. case p of TextPart t \<Rightarrow> t | ImagePart _ \<Rightarrow> []) ps))"

text \<open>A block of the transcript: the label, the text and a blank line.\<close>

definition transcript_block :: "string \<Rightarrow> string \<Rightarrow> string" where
  "transcript_block label txt = label @ '': '' @ txt @ nl @ nl"

text \<open>The roles of a conversation of \<open>n\<close> messages that starts with the user and
  alternates.\<close>

fun turn_roles :: "nat \<Rightarrow> string list" where
  "turn_roles 0 = []"
| "turn_roles (Suc n) = turn_roles n @ [if even n then ''user'' else ''assistant'']"

text \<open>A conversation whose roles alternate from the user's first message to a last
  message that is the user's again: the model is to reply.\<close>

definition user_waiting :: "message list \<Rightarrow> bool" where
  "user_waiting msgs \<longleftrightarrow> map role msgs = turn_roles (length msgs) \<and> odd (length msgs)"

text \<open>The text part of the first message when there are no images.\<close>

definition review_text :: "string \<Rightarrow> string" where
  "review_text review = ''Here is my initial product review:'' @ nl @ nl @ review @ nl @ nl"

text \<open>The image part that the program builds for a readable file.\<close>

definition image_part :: "(string \<rightharpoonup> string) \<Rightarrow> string \<Rightarrow> part" where
  "image_part fs p =
     ImagePart \<lparr>source_type = ''base64'',
                media_type = ''image/'' @ drop 1 (snd (splitext p)),
                data = b64encode (the (fs p))\<rparr>"

text \<open>
  Where a message of a run can come from: it is the first message, made of the header,
  the review that the operator entered, the sentence about images when there are any, and
  one image part for each image file; or a reply of the remote model to one of the
  requests; or a line that the operator typed.
\<close>

definition from_run ::
  "env \<Rightarrow> string list \<Rightarrow> (string \<rightharpoonup> string) \<Rightarrow> request list \<Rightarrow> message \<Rightarrow> bool" where
  "from_run e lines fs reqs m \<longleftrightarrow>
     (\<exists>review \<in> set lines. \<exists>image_files.
        get_image_files e = Inr image_files \<and>
        m = \<lparr>role = ''user'',
              content = Parts
                (TextPart (review_text review @
                           (if image_files = [] then [] else images_sentence)) #
                 map (image_part fs) image_files)\<rparr>) \<or>
     (\<exists>r \<in> set reqs. \<exists>t others.
        remote e r = Some (TextBlock t # others) \<and> m = \<lparr>role = ''assistant'', content = Str t\<rparr>) \<or>
     (\<exists>line \<in> set lines. m = \<lparr>role = ''user'', content = Str line\<rparr>)"

subsection \<open>A small run\<close>

definition demo_reply :: string where
  "demo_reply = ''Which model is it?''"

definition demo_env :: env where
  "demo_env =
     \<lparr>images_dir = Absent, remote = (\<lambda>r. Some [TextBlock demo_reply]),
      can_write = (\<lambda>p. True)\<rparr>"

definition demo_state :: state where
  "demo_state =
     \<lparr>messages = [\<lparr>role = ''user'', content = Parts [TextPart (review_text ''Good'')]\<rparr>],
      stdin = [''EXIT''], stdout = [], requests = [], files = Map.empty\<rparr>"

definition demo_files :: "string \<rightharpoonup> string" where
  "demo_files = [transcript_name \<mapsto> ''an earlier transcript'', ''notes.txt'' \<mapsto> ''n'']"

definition listing_env :: env where
  "listing_env =
     \<lparr>images_dir = Listing [''notes.txt'', ''a.PNG'', ''b.jpeg''],
      remote = (\<lambda>r. Some [TextBlock demo_reply]), can_write = (\<lambda>p. True)\<rparr>"

definition dotfile_env :: env where
  "dotfile_env =
     \<lparr>images_dir = Listing [''.png''], remote = (\<lambda>r. Some [TextBlock demo_reply]),
      can_write = (\<lambda>p. True)\<rparr>"

definition other_first_env :: env where
  "other_first_env =
     \<lparr>images_dir = Absent, remote = (\<lambda>r. Some [OtherBlock, TextBlock ''Hi'']),
      can_write = (\<lambda>p. True)\<rparr>"

section \<open>The two halves of a turn\<close>

lemma model_reply_Inr:
  assumes "model_reply e st = Inr st1"
  shows "\<exists>t others. remote e (request_of (messages st)) = Some (TextBlock t # others) \<and>
           st1 = st\<lparr>requests := requests st @ [request_of (messages st)],
                     stdout := stdout st @ [nl @ ''Claude: '' @ t @ nl],
                     messages := messages st @ [\<lparr>role = ''assistant'', content = Str t\<rparr>]\<rparr>"
  using assms
  by (auto simp: model_reply_def Let_def print_def split: option.splits list.splits block.splits)

lemma model_reply_Inl:
  assumes "model_reply e st = Inl (err, st1)"
  shows "st1 = st\<lparr>requests := requests st @ [request_of (messages st)]\<rparr>"
  using assms
  by (auto simp: model_reply_def Let_def print_def split: option.splits list.splits block.splits)

lemma user_turn_continue:
  assumes "user_turn e st = Inr (True, st1)"
  shows "\<exists>line. stdin st = line # stdin st1 \<and> lower line \<noteq> ''exit'' \<and>
           messages st1 = messages st @ [\<lparr>role = ''user'', content = Str line\<rparr>] \<and>
           requests st1 = requests st \<and> files st1 = files st"
  using assms
  by (auto simp: user_turn_def input_def Let_def print_def split: list.splits if_splits)

lemma user_turn_exit:
  assumes "user_turn e st = Inr (False, st1)"
  shows "\<exists>line. stdin st = line # stdin st1 \<and> lower line = ''exit'' \<and>
           messages st1 = messages st \<and> requests st1 = requests st \<and>
           files st1 = (files st)(transcript_name \<mapsto> write_messages (messages st) [])"
  using assms
  by (auto simp: user_turn_def input_def Let_def print_def split: list.splits if_splits)

lemma user_turn_Inl:
  assumes "user_turn e st = Inl (err, st1)"
  shows "messages st1 = messages st \<and> requests st1 = requests st \<and> files st1 = files st"
  using assms
  by (auto simp: user_turn_def input_def Let_def print_def split: list.splits if_splits)

lemma user_turn_sentinel:
  assumes "stdin st = line # rest" and "lower line = ''exit''"
  shows "\<exists>st'. messages st' = messages st \<and> stdin st' = rest \<and>
           user_turn e st =
             (if can_write e transcript_name then Inr (False, st')
              else Inl (OSError transcript_name, st'))"
  using assms by (simp add: user_turn_def input_def print_def Let_def)

lemma user_turn_sentinel_same:
  assumes "stdin st = line # rest" and "lower line = ''exit''"
  shows "user_turn e st = user_turn e (st\<lparr>stdin := ''exit'' # rest\<rparr>)"
  using assms
  by (simp add: user_turn_def input_def print_def Let_def lower_def lower_char_def
      ascii_uppercase_def ascii_lowercase_def)

lemma user_turn_other:
  assumes "stdin st = line # rest" and "lower line \<noteq> ''exit''"
  shows "\<exists>st'. user_turn e st = Inr (True, st') \<and> stdin st' = rest \<and>
           messages st' = messages st @ [\<lparr>role = ''user'', content = Str line\<rparr>]"
  using assms by (simp add: user_turn_def input_def print_def Let_def)

lemma loop_body_continue:
  assumes "loop_body e st = Inr (True, st1)"
  shows "\<exists>t others line.
           remote e (request_of (messages st)) = Some (TextBlock t # others) \<and>
           stdin st = line # stdin st1 \<and> lower line \<noteq> ''exit'' \<and>
           messages st1 = messages st @ [\<lparr>role = ''assistant'', content = Str t\<rparr>,
                                         \<lparr>role = ''user'', content = Str line\<rparr>] \<and>
           requests st1 = requests st @ [request_of (messages st)] \<and>
           files st1 = files st"
proof -
  from assms obtain s where r: "model_reply e st = Inr s" and u: "user_turn e s = Inr (True, st1)"
    by (auto simp: loop_body_def split: sum.splits)
  from model_reply_Inr [OF r] user_turn_continue [OF u] show ?thesis
    by auto
qed

lemma loop_body_exit:
  assumes "loop_body e st = Inr (False, st1)"
  shows "\<exists>t others line.
           remote e (request_of (messages st)) = Some (TextBlock t # others) \<and>
           stdin st = line # stdin st1 \<and> lower line = ''exit'' \<and>
           messages st1 = messages st @ [\<lparr>role = ''assistant'', content = Str t\<rparr>] \<and>
           requests st1 = requests st @ [request_of (messages st)] \<and>
           files st1 = (files st)(transcript_name \<mapsto> write_messages (messages st1) [])"
proof -
  from assms obtain s where r: "model_reply e st = Inr s" and u: "user_turn e s = Inr (False, st1)"
    by (auto simp: loop_body_def split: sum.splits)
  from model_reply_Inr [OF r] user_turn_exit [OF u] show ?thesis
    by auto
qed

lemma loop_body_Inl:
  assumes "loop_body e st = Inl (err, st1)"
  shows "requests st1 = requests st @ [request_of (messages st)] \<and> files st1 = files st \<and>
         (messages st1 = messages st \<or>
          (\<exists>t others. remote e (request_of (messages st)) = Some (TextBlock t # others) \<and>
             messages st1 = messages st @ [\<lparr>role = ''assistant'', content = Str t\<rparr>]))"
proof (cases "model_reply e st")
  case (Inl x)
  with assms have "model_reply e st = Inl (err, st1)"
    by (simp add: loop_body_def)
  from model_reply_Inl [OF this] show ?thesis by simp
next
  case (Inr s)
  with assms have u: "user_turn e s = Inl (err, st1)"
    by (simp add: loop_body_def)
  from model_reply_Inr [OF Inr] user_turn_Inl [OF u] show ?thesis
    by auto
qed

lemma conversation_loop_rule:
  assumes "I st"
    and "\<And>s s'. I s \<Longrightarrow> loop_body e s = Inr (True, s') \<Longrightarrow> I s'"
    and "\<And>s s'. I s \<Longrightarrow> loop_body e s = Inr (False, s') \<Longrightarrow> Q (Inr s')"
    and "\<And>s x. I s \<Longrightarrow> loop_body e s = Inl x \<Longrightarrow> Q (Inl x)"
  shows "Q (conversation_loop e st)"
  using assms
proof (induction e st rule: conversation_loop.induct)
  case (1 e st)
  note inv = "1.prems"(1) and continue = "1.prems"(2)
    and leave = "1.prems"(3) and abort = "1.prems"(4)
  show ?case
  proof (cases "loop_body e st")
    case (Inl x)
    from abort [OF inv Inl] have "Q (Inl x)" .
    with Inl show ?thesis
      by (subst conversation_loop.simps) simp
  next
    case (Inr p)
    obtain b s' where p: "p = (b, s')" by (cases p)
    show ?thesis
    proof (cases b)
      case True
      with Inr p have body: "loop_body e st = Inr (True, s')" by simp
      from continue [OF inv body] have "I s'" .
      then have "Q (conversation_loop e s')"
      proof (rule "1.IH" [OF Inr p [symmetric] True])
        show "\<And>s t. I s \<Longrightarrow> loop_body e s = Inr (True, t) \<Longrightarrow> I t"
          by (rule continue)
        show "\<And>s t. I s \<Longrightarrow> loop_body e s = Inr (False, t) \<Longrightarrow> Q (Inr t)"
          by (rule leave)
        show "\<And>s x. I s \<Longrightarrow> loop_body e s = Inl x \<Longrightarrow> Q (Inl x)"
          by (rule abort)
      qed
      with body show ?thesis
        by (subst conversation_loop.simps) simp
    next
      case False
      with Inr p have body: "loop_body e st = Inr (False, s')" by simp
      from leave [OF inv body] have "Q (Inr s')" .
      with body show ?thesis
        by (subst conversation_loop.simps) simp
    qed
  qed
qed

section \<open>The first message, the transcript and the files\<close>

lemma text_parts_concat:
  "concat (text_parts ps) =
   concat (map (\<lambda>p. case p of TextPart t \<Rightarrow> t | ImagePart _ \<Rightarrow> []) ps)"
  by (induction ps rule: text_parts.induct) simp_all

lemma write_messages_blocks:
  "write_messages ms f =
   f @ concat (map (\<lambda>m. transcript_block (upper (role m)) (message_text (content m))) ms)"
  by (induction ms arbitrary: f)
    (simp_all add: transcript_block_def message_text_def text_parts_concat split: content.splits)

lemma encode_images_files:
  "files st = files st' \<Longrightarrow> encode_images st ps acc = encode_images st' ps acc"
  by (induction ps arbitrary: acc) (simp_all add: encode_image_def split: option.splits)

lemma first_message_Inr:
  assumes "first_message e st = Inr st1"
  shows "\<exists>review image_files.
           stdin st = review # stdin st1 \<and> get_image_files e = Inr image_files \<and>
           requests st1 = requests st \<and> files st1 = files st \<and>
           (if image_files = []
            then messages st1 = [\<lparr>role = ''user'', content = Parts [TextPart (review_text review)]\<rparr>]
            else \<exists>image_content.
                   encode_images st image_files [] = Inr image_content \<and>
                   messages st1 =
                     [\<lparr>role = ''user'',
                       content = Parts (TextPart (review_text review @ images_sentence) #
                                        image_content)\<rparr>])"
proof -
  let ?st2 = "print (nl @ ''Please enter your initial product experience/review:'')
                (print (nl @ ''=== AMAZON REVIEW FRAMEWORK ==='') st)"
  from assms obtain review st3 where i: "input ''> '' ?st2 = Inr (review, st3)"
    by (auto simp: first_message_def Let_def split: sum.splits)
  then have st3: "stdin st = review # stdin st3" "files st3 = files st"
    "requests st3 = requests st"
    by (auto simp: input_def print_def Let_def split: list.splits)
  from assms i obtain image_files where g: "get_image_files e = Inr image_files"
    by (auto simp: first_message_def Let_def split: sum.splits)
  show ?thesis
  proof (cases "image_files = []")
    case True
    with assms i g st3 show ?thesis
      by (auto simp: first_message_def Let_def print_def review_text_def)
  next
    case False
    with assms i g obtain image_content
      where enc: "encode_images st3 image_files [] = Inr image_content"
      by (auto simp: first_message_def Let_def split: sum.splits)
    with encode_images_files [OF st3(2)]
    have "encode_images st image_files [] = Inr image_content" by simp
    with assms i g st3 False enc show ?thesis
      by (auto simp: first_message_def Let_def print_def review_text_def)
  qed
qed

lemma first_message_Inl:
  assumes "first_message e st = Inl (err, st1)"
  shows "messages st1 = messages st \<and> requests st1 = requests st \<and> files st1 = files st"
  using assms
  by (auto simp: first_message_def Let_def print_def input_def
           split: sum.splits list.splits if_splits)

lemma conversation_loop_files:
  assumes "conversation_loop e st = Inr st'"
  shows "files st' = (files st)(transcript_name \<mapsto> write_messages (messages st') [])"
proof -
  have "\<forall>s'. conversation_loop e st = Inr s' \<longrightarrow>
          files s' = (files st)(transcript_name \<mapsto> write_messages (messages s') [])"
  proof (rule conversation_loop_rule [where I = "\<lambda>s. files s = files st"])
    show "files st = files st" ..
  next
    fix s s'
    assume "files s = files st" and "loop_body e s = Inr (True, s')"
    with loop_body_continue [of e s s'] show "files s' = files st" by auto
  next
    fix s s'
    assume "files s = files st" and "loop_body e s = Inr (False, s')"
    with loop_body_exit [of e s s']
    show "\<forall>s''. Inr s' = Inr s'' \<longrightarrow>
            files s'' = (files st)(transcript_name \<mapsto> write_messages (messages s'') [])"
      by auto
  next
    fix s x
    show "\<forall>s''. Inl x = Inr s'' \<longrightarrow>
            files s'' = (files st)(transcript_name \<mapsto> write_messages (messages s'') [])"
      by simp
  qed
  with assms show ?thesis by simp
qed

lemma lower_drop: "lower (drop n s) = drop n (lower s)"
  by (simp add: lower_def drop_map)

lemma has_image_extension_iff:
  "has_image_extension name \<longleftrightarrow>
   list_ex (\<lambda>ext. endswith (lower name) ext) image_extensions"
  by (simp add: has_image_extension_def endswith_def image_extensions_def lower_drop)
    (simp add: lower_def lower_char_def ascii_uppercase_def ascii_lowercase_def)

lemma scan_listing_filter:
  "scan_listing names acc =
   acc @ map (os_path_join ''images'') (filter has_image_extension names)"
  by (induction names arbitrary: acc) (simp_all add: has_image_extension_iff)

lemma encode_images_readable:
  assumes "\<forall>p \<in> set ps. files st p \<noteq> None"
  shows "encode_images st ps acc = Inr (acc @ map (image_part (files st)) ps)"
  using assms
  by (induction ps arbitrary: acc) (auto simp: encode_image_def image_part_def)

lemma encode_images_unreadable:
  assumes "p \<in> set ps" and "files st p = None"
  shows "\<exists>q \<in> set ps. files st q = None \<and> encode_images st ps acc = Inl (OSError q)"
  using assms
  by (induction ps arbitrary: acc) (auto simp: encode_image_def split: option.splits)

lemma first_message_no_images:
  assumes "get_image_files e = Inr []" and "stdin st = review # rest"
  shows "\<exists>st1. first_message e st = Inr st1 \<and> stdin st1 = rest \<and>
           requests st1 = requests st \<and> files st1 = files st \<and>
           messages st1 = [\<lparr>role = ''user'', content = Parts [TextPart (review_text review)]\<rparr>]"
  using assms
  by (simp add: first_message_def input_def print_def Let_def review_text_def)



section \<open>The requests of a run\<close>

lemma conversation_loop_requests:
  "prefix (requests st) (requests (final_state (conversation_loop e st)))"
proof (rule conversation_loop_rule [where I = "\<lambda>s. prefix (requests st) (requests s)"])
  show "prefix (requests st) (requests st)" by simp
next
  fix s s'
  assume "prefix (requests st) (requests s)" and "loop_body e s = Inr (True, s')"
  with loop_body_continue [of e s s'] show "prefix (requests st) (requests s')"
    by auto
next
  fix s s'
  assume "prefix (requests st) (requests s)" and "loop_body e s = Inr (False, s')"
  with loop_body_exit [of e s s'] show "prefix (requests st) (requests (final_state (Inr s')))"
    by (auto simp: final_state_def)
next
  fix s x
  assume p: "prefix (requests st) (requests s)" and b: "loop_body e s = Inl x"
  obtain err s' where x: "x = (err, s')" by (cases x)
  with p b loop_body_Inl [of e s err s']
  show "prefix (requests st) (requests (final_state (Inl x)))"
    by (auto simp: final_state_def)
qed

lemma conversation_loop_first_request:
  "\<exists>rs. requests (final_state (conversation_loop e st)) =
          requests st @ request_of (messages st) # rs"
proof (cases "loop_body e st")
  case (Inl x)
  obtain err s' where x: "x = (err, s')" by (cases x)
  with Inl loop_body_Inl [of e st err s'] show ?thesis
    by (subst conversation_loop.simps) (simp add: final_state_def)
next
  case (Inr p)
  obtain b s' where p: "p = (b, s')" by (cases p)
  show ?thesis
  proof (cases b)
    case True
    with Inr p have body: "loop_body e st = Inr (True, s')" by simp
    from loop_body_continue [OF body]
    have "requests s' = requests st @ [request_of (messages st)]" by auto
    with conversation_loop_requests [of s' e]
    obtain rs where "requests (final_state (conversation_loop e s')) =
        (requests st @ [request_of (messages st)]) @ rs"
      by (auto simp: prefix_def)
    with body show ?thesis
      by (subst conversation_loop.simps) simp
  next
    case False
    with Inr p have body: "loop_body e st = Inr (False, s')" by simp
    from loop_body_exit [OF body]
    have "requests s' = requests st @ [request_of (messages st)]" by auto
    with body show ?thesis
      by (subst conversation_loop.simps) (simp add: final_state_def)
  qed
qed

section \<open>The image parts\<close>

text \<open>
  When every file with a recognised extension can be read, the first message holds one
  image part for each of them, in the order of the listing, with the file's bytes in
  base64. The label of the part is \<open>image/\<close> and what follows the last dot of the name,
  in the case of the name, unless the name has only dots before that dot: then
  \<open>splitext\<close> finds no extension, and the label is \<open>image/\<close> alone.
\<close>

lemma rfind_absent: "c \<notin> set s \<Longrightarrow> rfind s c = - 1"
  by (induction s) (auto simp: Let_def)

lemma rfind_last: "c \<notin> set s \<Longrightarrow> rfind (pre @ c # s) c = int (length pre)"
  by (induction pre) (auto simp: Let_def rfind_absent)

lemma os_path_join_images:
  assumes "CHR ''/'' \<notin> set name"
  shows "os_path_join ''images'' name = ''images'' @ CHR ''/'' # name"
proof -
  from assms have "\<not> startswith name ''/''"
    by (cases name) (auto simp: startswith_def)
  then show ?thesis
    by (simp add: os_path_join_def endswith_def)
qed

lemma splitext_in_directory:
  assumes "CHR ''/'' \<notin> set name" and "name = stem @ CHR ''.'' # x" and "CHR ''.'' \<notin> set x"
  shows "splitext (dir @ CHR ''/'' # name) =
           (if \<exists>c \<in> set stem. c \<noteq> CHR ''.'' then (dir @ CHR ''/'' # stem, CHR ''.'' # x)
            else (dir @ CHR ''/'' # name, []))"
proof -
  let ?p = "dir @ CHR ''/'' # name"
  let ?a = "dir @ CHR ''/'' # stem"
  from assms(2) have p: "?p = ?a @ CHR ''.'' # x"
    by simp
  from assms(1) have sep: "rfind ?p CHR ''/'' = int (length dir)"
    by (rule rfind_last)
  from assms(3) have "rfind (?a @ CHR ''.'' # x) CHR ''.'' = int (length ?a)"
    by (rule rfind_last)
  with p have dot: "rfind ?p CHR ''.'' = int (length ?a)"
    by simp
  have "nat (int (length dir) + 1) = length (dir @ [CHR ''/''])"
    by simp
  then have "drop (nat (int (length dir) + 1)) ?p = name"
    by (metis append.assoc append_Cons append_Nil append_eq_conv_conj)
  moreover have "nat (int (length ?a) - (int (length dir) + 1)) = length stem"
    by simp
  ultimately have mid: "take (nat (int (length ?a) - (int (length dir) + 1)))
      (drop (nat (int (length dir) + 1)) ?p) = stem"
    using assms(2) by simp
  have "take (nat (int (length ?a))) ?p = ?a" and "drop (nat (int (length ?a))) ?p = CHR ''.'' # x"
    using p by (simp_all del: append.simps)
  with sep dot mid show ?thesis
    unfolding splitext_def Let_def list_ex_iff by simp
qed

lemma has_image_extension_split:
  assumes "has_image_extension name"
  shows "\<exists>stem x. name = stem @ CHR ''.'' # x \<and> CHR ''.'' \<notin> set x \<and>
           lower x \<in> {''jpg'', ''jpeg'', ''png'', ''gif'', ''webp''}"
proof -
  from assms obtain ext where ext: "ext \<in> set image_extensions" "length ext \<le> length name"
    and eq: "lower (drop (length name - length ext) name) = lower ext"
    by (auto simp: has_image_extension_def)
  let ?sfx = "drop (length name - length ext) name"
  have name: "name = take (length name - length ext) name @ ?sfx"
    by simp
  from ext(1) obtain y where y: "ext = CHR ''.'' # y" "CHR ''.'' \<notin> set y"
    "y \<in> {''jpg'', ''jpeg'', ''png'', ''gif'', ''webp''}"
    by (auto simp: image_extensions_def)
  then have ly: "lower ext = ext"
    by (auto simp: lower_def lower_char_def ascii_uppercase_def ascii_lowercase_def)
  with eq y obtain d x where sfx: "?sfx = d # x" and d: "lower_char d = CHR ''.''" and x: "lower x = y"
    by (cases ?sfx) (auto simp: lower_def)
  have dot: "\<And>c. lower_char c = CHR ''.'' \<Longrightarrow> c = CHR ''.''"
    by (auto simp: lower_char_def ascii_uppercase_def ascii_lowercase_def
        split: option.splits if_splits)
  from d dot have "d = CHR ''.''" by blast
  moreover have "lower_char CHR ''.'' = CHR ''.''"
    by (simp add: lower_char_def ascii_uppercase_def ascii_lowercase_def)
  with x y(2) have "CHR ''.'' \<notin> set x"
    unfolding lower_def by (metis image_eqI set_map)
  ultimately show ?thesis
    using name sfx x y(3) by metis
qed


lemma first_message_images:
  assumes "images_dir e = Listing names" and "stdin st = review # rest"
    and "\<forall>name \<in> set names.
           has_image_extension name \<longrightarrow> files st (os_path_join ''images'' name) \<noteq> None"
  shows "\<exists>st1.
           first_message e st = Inr st1 \<and>
           messages st1 =
             [\<lparr>role = ''user'',
               content = Parts
                 (TextPart (review_text review @
                            (if filter has_image_extension names = [] then [] else images_sentence)) #
                  map (\<lambda>name. image_part (files st) (os_path_join ''images'' name))
                    (filter has_image_extension names))\<rparr>]"
proof -
  let ?ps = "map (os_path_join ''images'') (filter has_image_extension names)"
  from assms(1) have g: "get_image_files e = Inr ?ps"
    by (simp add: get_image_files_def scan_listing_filter)
  obtain st3 where i: "input ''> '' (print (nl @ ''Please enter your initial product experience/review:'')
                (print (nl @ ''=== AMAZON REVIEW FRAMEWORK ==='') st)) = Inr (review, st3)"
    and st3: "files st3 = files st"
    using assms(2) by (simp add: input_def print_def Let_def)
  from assms(3) have "\<forall>p \<in> set ?ps. files st3 p \<noteq> None"
    by (simp add: st3)
  from encode_images_readable [OF this, of "[]"] st3
  have enc: "encode_images st3 ?ps [] = Inr (map (image_part (files st)) ?ps)"
    by simp
  show ?thesis
  proof (cases "filter has_image_extension names = []")
    case True
    with i g show ?thesis
      by (simp add: first_message_def Let_def print_def review_text_def)
  next
    case False
    with i g enc show ?thesis
      by (simp add: first_message_def Let_def print_def review_text_def comp_def)
  qed
qed

lemma image_part_media_type:
  assumes "has_image_extension name" and "CHR ''/'' \<notin> set name"
  shows "\<exists>stem x. name = stem @ CHR ''.'' # x \<and> CHR ''.'' \<notin> set x \<and>
           lower x \<in> {''jpg'', ''jpeg'', ''png'', ''gif'', ''webp''} \<and>
           image_part fs (os_path_join ''images'' name) =
             ImagePart \<lparr>source_type = ''base64'',
                        media_type = ''image/'' @ (if \<exists>c \<in> set stem. c \<noteq> CHR ''.'' then x else []),
                        data = b64encode (the (fs (os_path_join ''images'' name)))\<rparr>"
proof -
  from has_image_extension_split [OF assms(1)] obtain stem x
    where n: "name = stem @ CHR ''.'' # x" "CHR ''.'' \<notin> set x"
      "lower x \<in> {''jpg'', ''jpeg'', ''png'', ''gif'', ''webp''}"
    by blast
  from splitext_in_directory [OF assms(2) n(1,2), of "''images''"] os_path_join_images [OF assms(2)]
  have "image_part fs (os_path_join ''images'' name) =
             ImagePart \<lparr>source_type = ''base64'',
                        media_type = ''image/'' @ (if \<exists>c \<in> set stem. c \<noteq> CHR ''.'' then x else []),
                        data = b64encode (the (fs (os_path_join ''images'' name)))\<rparr>"
    by (simp add: image_part_def)
  with n show ?thesis by blast
qed

section \<open>The conversation over the turns\<close>

lemma after_turns_messages:
  "after_turns e n st = Some st' \<Longrightarrow>
   \<exists>new. messages st' = messages st @ new \<and> length new = 2 * n"
proof (induction n arbitrary: st)
  case 0
  then show ?case by simp
next
  case (Suc n)
  from Suc.prems obtain s where body: "loop_body e st = Inr (True, s)"
    and rest: "after_turns e n s = Some st'"
    by (auto split: sum.splits if_splits)
  from loop_body_continue [OF body] obtain t line
    where "messages s = messages st @ [\<lparr>role = ''assistant'', content = Str t\<rparr>,
                                        \<lparr>role = ''user'', content = Str line\<rparr>]"
    by blast
  moreover from Suc.IH [OF rest] obtain new
    where "messages st' = messages s @ new" and "length new = 2 * n"
    by blast
  ultimately show ?case by simp
qed

lemma after_turns_split:
  "after_turns e n st = Some st' \<Longrightarrow> k \<le> n \<Longrightarrow>
   \<exists>s. after_turns e k st = Some s \<and> after_turns e (n - k) s = Some st'"
proof (induction k arbitrary: st n)
  case 0
  then show ?case by simp
next
  case (Suc k)
  then obtain m where n: "n = Suc m" and km: "k \<le> m"
    by (cases n) auto
  with Suc.prems obtain s where body: "loop_body e st = Inr (True, s)"
    and rest: "after_turns e m s = Some st'"
    by (auto split: sum.splits if_splits)
  from Suc.IH [OF rest km] body n show ?case
    by simp
qed

lemma after_turns_loop:
  "after_turns e n st = Some st' \<Longrightarrow> conversation_loop e st = conversation_loop e st'"
proof (induction n arbitrary: st)
  case 0
  then show ?case by simp
next
  case (Suc n)
  from Suc.prems obtain s where body: "loop_body e st = Inr (True, s)"
    and rest: "after_turns e n s = Some st'"
    by (auto split: sum.splits if_splits)
  from body have "conversation_loop e st = conversation_loop e s"
    by (subst conversation_loop.simps) simp
  with Suc.IH [OF rest] show ?case by simp
qed

lemma after_turns_histories:
  assumes "after_turns e n st = Some st'"
    and "\<forall>r \<in> set (requests st). prefix (request_messages r) (messages st)"
  shows "\<forall>r \<in> set (requests st'). prefix (request_messages r) (messages st')"
  using assms
proof (induction n arbitrary: st)
  case 0
  then show ?case by simp
next
  case (Suc n)
  from Suc.prems(1) obtain s where body: "loop_body e st = Inr (True, s)"
    and rest: "after_turns e n s = Some st'"
    by (auto split: sum.splits if_splits)
  from loop_body_continue [OF body] Suc.prems(2)
  have "\<forall>r \<in> set (requests s). prefix (request_messages r) (messages s)"
    by (auto simp: request_of_def)
  from Suc.IH [OF rest this] show ?case .
qed

lemma conversation_loop_messages:
  "prefix (messages st) (messages (final_state (conversation_loop e st)))"
proof (rule conversation_loop_rule [where I = "\<lambda>s. prefix (messages st) (messages s)"])
  show "prefix (messages st) (messages st)" by simp
next
  fix s s'
  assume "prefix (messages st) (messages s)" and "loop_body e s = Inr (True, s')"
  with loop_body_continue [of e s s'] show "prefix (messages st) (messages s')"
    by auto
next
  fix s s'
  assume "prefix (messages st) (messages s)" and "loop_body e s = Inr (False, s')"
  with loop_body_exit [of e s s'] show "prefix (messages st) (messages (final_state (Inr s')))"
    by (auto simp: final_state_def)
next
  fix s x
  assume p: "prefix (messages st) (messages s)" and b: "loop_body e s = Inl x"
  obtain err s' where x: "x = (err, s')" by (cases x)
  with p b loop_body_Inl [of e s err s']
  show "prefix (messages st) (messages (final_state (Inl x)))"
    by (auto simp: final_state_def)
qed

section \<open>Invariants of the loop\<close>

lemma encode_images_Inr:
  "encode_images st ps acc = Inr image_content \<Longrightarrow>
   image_content = acc @ map (image_part (files st)) ps"
proof (induction ps arbitrary: acc)
  case Nil
  then show ?case by simp
next
  case (Cons p ps)
  from Cons.prems
  have "encode_images st ps (acc @ [image_part (files st) p]) = Inr image_content"
    by (auto simp: encode_image_def image_part_def split: option.splits)
  from Cons.IH [OF this] show ?case by simp
qed

lemma message_text_first:
  "message_text (Parts (TextPart t # map (image_part fs) ps)) = t"
  by (induction ps) (simp_all add: message_text_def image_part_def)

lemma review_text_not_directive: "review_text review @ sentence \<noteq> system_prompt"
proof
  assume "review_text review @ sentence = system_prompt"
  then have "hd (review_text review @ sentence) = hd system_prompt"
    by simp
  then show False
    by (simp add: review_text_def system_prompt_def nl_def)
qed

lemma conversation_loop_invariant:
  assumes "I st"
    and "\<And>s s'. I s \<Longrightarrow> loop_body e s = Inr (True, s') \<Longrightarrow> I s'"
    and "\<And>s s'. I s \<Longrightarrow> loop_body e s = Inr (False, s') \<Longrightarrow> J s'"
    and "\<And>s err s'. I s \<Longrightarrow> loop_body e s = Inl (err, s') \<Longrightarrow> J s'"
  shows "J (final_state (conversation_loop e st))"
proof (rule conversation_loop_rule [where I = I])
  show "I st" by fact
next
  fix s s'
  assume "I s" and "loop_body e s = Inr (True, s')"
  then show "I s'" by (rule assms(2))
next
  fix s s'
  assume "I s" and "loop_body e s = Inr (False, s')"
  then have "J s'" by (rule assms(3))
  then show "J (final_state (Inr s'))" by (simp add: final_state_def)
next
  fix s x
  assume i: "I s" and b: "loop_body e s = Inl x"
  obtain err s' where x: "x = (err, s')" by (cases x)
  with i b have "J s'" by (auto intro: assms(4))
  with x show "J (final_state (Inl x))" by (simp add: final_state_def)
qed

lemma final_state_first_message:
  "final_state (create_amazon_review e st) =
     (case first_message e st of
        Inl (err, s) \<Rightarrow> s
      | Inr st1 \<Rightarrow> final_state (conversation_loop e st1))"
  by (simp add: create_amazon_review_def final_state_def split: sum.splits)


lemma from_run_mono: "from_run e lines fs reqs m \<Longrightarrow> from_run e lines fs (reqs @ others) m"
  unfolding from_run_def set_append by blast

lemma from_run_reply:
  "remote e r = Some (TextBlock t # others) \<Longrightarrow>
   from_run e lines fs (reqs @ [r]) \<lparr>role = ''assistant'', content = Str t\<rparr>"
  unfolding from_run_def by (rule disjI2, rule disjI1) auto

lemma from_run_line:
  "line \<in> set lines \<Longrightarrow> from_run e lines fs reqs \<lparr>role = ''user'', content = Str line\<rparr>"
  unfolding from_run_def by (rule disjI2, rule disjI2) auto

lemma conversation_loop_origin:
  assumes "set (stdin st) \<subseteq> set lines"
    and "\<forall>r \<in> set (requests st). system r = system_prompt"
    and "\<forall>m \<in> set (messages st). from_run e lines fs (requests st) m"
  shows "(\<forall>r \<in> set (requests (final_state (conversation_loop e st))). system r = system_prompt) \<and>
         (\<forall>m \<in> set (messages (final_state (conversation_loop e st))).
            from_run e lines fs (requests (final_state (conversation_loop e st))) m)"
proof (rule conversation_loop_invariant
    [where I = "\<lambda>s. set (stdin s) \<subseteq> set lines \<and>
                      (\<forall>r \<in> set (requests s). system r = system_prompt) \<and>
                      (\<forall>m \<in> set (messages s). from_run e lines fs (requests s) m)"
       and J = "\<lambda>s. (\<forall>r \<in> set (requests s). system r = system_prompt) \<and>
                      (\<forall>m \<in> set (messages s). from_run e lines fs (requests s) m)"])
  from assms
  show "set (stdin st) \<subseteq> set lines \<and>
        (\<forall>r \<in> set (requests st). system r = system_prompt) \<and>
        (\<forall>m \<in> set (messages st). from_run e lines fs (requests st) m)"
    by simp
next
  fix s s'
  assume inv: "set (stdin s) \<subseteq> set lines \<and>
        (\<forall>r \<in> set (requests s). system r = system_prompt) \<and>
        (\<forall>m \<in> set (messages s). from_run e lines fs (requests s) m)"
    and body: "loop_body e s = Inr (True, s')"
  from loop_body_continue [OF body] obtain t others line
    where reply: "remote e (request_of (messages s)) = Some (TextBlock t # others)"
      and line: "stdin s = line # stdin s'"
      and msgs: "messages s' = messages s @ [\<lparr>role = ''assistant'', content = Str t\<rparr>,
                                            \<lparr>role = ''user'', content = Str line\<rparr>]"
      and reqs: "requests s' = requests s @ [request_of (messages s)]"
    by blast
  from inv line have "set (stdin s') \<subseteq> set lines" and l: "line \<in> set lines"
    by auto
  moreover from inv reqs have "\<forall>r \<in> set (requests s'). system r = system_prompt"
    by (auto simp: request_of_def)
  moreover from inv msgs reqs from_run_reply [OF reply] from_run_line [OF l]
  have "\<forall>m \<in> set (messages s'). from_run e lines fs (requests s') m"
    by (auto intro: from_run_mono)
  ultimately show "set (stdin s') \<subseteq> set lines \<and>
        (\<forall>r \<in> set (requests s'). system r = system_prompt) \<and>
        (\<forall>m \<in> set (messages s'). from_run e lines fs (requests s') m)"
    by blast
next
  fix s s'
  assume inv: "set (stdin s) \<subseteq> set lines \<and>
        (\<forall>r \<in> set (requests s). system r = system_prompt) \<and>
        (\<forall>m \<in> set (messages s). from_run e lines fs (requests s) m)"
    and body: "loop_body e s = Inr (False, s')"
  from loop_body_exit [OF body] obtain t others
    where reply: "remote e (request_of (messages s)) = Some (TextBlock t # others)"
      and msgs: "messages s' = messages s @ [\<lparr>role = ''assistant'', content = Str t\<rparr>]"
      and reqs: "requests s' = requests s @ [request_of (messages s)]"
    by blast
  from inv reqs have "\<forall>r \<in> set (requests s'). system r = system_prompt"
    by (auto simp: request_of_def)
  moreover from inv msgs reqs from_run_reply [OF reply]
  have "\<forall>m \<in> set (messages s'). from_run e lines fs (requests s') m"
    by (auto intro: from_run_mono)
  ultimately show "(\<forall>r \<in> set (requests s'). system r = system_prompt) \<and>
        (\<forall>m \<in> set (messages s'). from_run e lines fs (requests s') m)"
    by blast
next
  fix s err s'
  assume inv: "set (stdin s) \<subseteq> set lines \<and>
        (\<forall>r \<in> set (requests s). system r = system_prompt) \<and>
        (\<forall>m \<in> set (messages s). from_run e lines fs (requests s) m)"
    and body: "loop_body e s = Inl (err, s')"
  from loop_body_Inl [OF body]
  have reqs: "requests s' = requests s @ [request_of (messages s)]"
    and msgs: "messages s' = messages s \<or>
          (\<exists>t others. remote e (request_of (messages s)) = Some (TextBlock t # others) \<and>
             messages s' = messages s @ [\<lparr>role = ''assistant'', content = Str t\<rparr>])"
    by blast+
  from inv reqs have "\<forall>r \<in> set (requests s'). system r = system_prompt"
    by (auto simp: request_of_def)
  moreover have "\<forall>m \<in> set (messages s'). from_run e lines fs (requests s') m"
  proof
    fix m
    assume m: "m \<in> set (messages s')"
    from msgs show "from_run e lines fs (requests s') m"
    proof
      assume "messages s' = messages s"
      with m inv have "from_run e lines fs (requests s) m" by simp
      then show ?thesis unfolding reqs by (rule from_run_mono)
    next
      assume "\<exists>t others. remote e (request_of (messages s)) = Some (TextBlock t # others) \<and>
             messages s' = messages s @ [\<lparr>role = ''assistant'', content = Str t\<rparr>]"
      then obtain t others
        where reply: "remote e (request_of (messages s)) = Some (TextBlock t # others)"
          and ms: "messages s' = messages s @ [\<lparr>role = ''assistant'', content = Str t\<rparr>]"
        by blast
      show ?thesis
      proof (cases "m \<in> set (messages s)")
        case True
        with inv have "from_run e lines fs (requests s) m" by simp
        then show ?thesis unfolding reqs by (rule from_run_mono)
      next
        case False
        with m ms have "m = \<lparr>role = ''assistant'', content = Str t\<rparr>" by simp
        with from_run_reply [OF reply] show ?thesis unfolding reqs by simp
      qed
    qed
  qed
  ultimately show "(\<forall>r \<in> set (requests s'). system r = system_prompt) \<and>
        (\<forall>m \<in> set (messages s'). from_run e lines fs (requests s') m)"
    by blast
qed

section \<open>The roles\<close>

lemma length_turn_roles: "length (turn_roles n) = n"
  by (induction n) simp_all

lemma turn_roles_nth: "i < n \<Longrightarrow> turn_roles n ! i = (if even i then ''user'' else ''assistant'')"
  by (induction n) (auto simp: nth_append length_turn_roles less_Suc_eq)

lemma user_waiting_reply:
  assumes "user_waiting msgs"
  shows "map role (msgs @ [\<lparr>role = ''assistant'', content = c\<rparr>]) =
           turn_roles (length (msgs @ [\<lparr>role = ''assistant'', content = c\<rparr>]))"
  using assms by (simp add: user_waiting_def)

lemma user_waiting_turn:
  assumes "user_waiting msgs"
  shows "user_waiting (msgs @ [\<lparr>role = ''assistant'', content = c\<rparr>,
                               \<lparr>role = ''user'', content = d\<rparr>])"
  using assms by (simp add: user_waiting_def)

lemma user_waiting_last:
  assumes "user_waiting msgs"
  shows "msgs \<noteq> [] \<and> role (hd msgs) = ''user'' \<and> role (last msgs) = ''user''"
proof -
  from assms have m: "map role msgs = turn_roles (length msgs)" and o: "odd (length msgs)"
    by (simp_all add: user_waiting_def)
  from o have ne: "msgs \<noteq> []" by auto
  then have "role (hd msgs) = map role msgs ! 0" and "role (last msgs) = map role msgs ! (length msgs - 1)"
    by (simp_all add: hd_conv_nth last_conv_nth)
  with m ne o show ?thesis
    by (simp add: turn_roles_nth)
qed

lemma first_message_user_waiting:
  assumes "first_message e st = Inr st1"
  shows "user_waiting (messages st1)"
  using first_message_Inr [OF assms]
  by (auto simp: user_waiting_def split: if_splits)

lemma loop_body_user_waiting:
  assumes "user_waiting (messages s) \<and> (\<forall>r \<in> set (requests s). user_waiting (request_messages r))"
    and "loop_body e s = Inr (True, s')"
  shows "user_waiting (messages s') \<and> (\<forall>r \<in> set (requests s'). user_waiting (request_messages r))"
  using loop_body_continue [OF assms(2)] assms(1)
  by (auto simp: user_waiting_turn request_of_def)

lemma after_turns_user_waiting:
  assumes "after_turns e n st = Some st'"
    and "user_waiting (messages st) \<and> (\<forall>r \<in> set (requests st). user_waiting (request_messages r))"
  shows "user_waiting (messages st') \<and> (\<forall>r \<in> set (requests st'). user_waiting (request_messages r))"
  using assms
proof (induction n arbitrary: st)
  case 0
  then show ?case by simp
next
  case (Suc n)
  from Suc.prems(1) obtain s where body: "loop_body e st = Inr (True, s)"
    and rest: "after_turns e n s = Some st'"
    by (auto split: sum.splits if_splits)
  from Suc.IH [OF rest loop_body_user_waiting [OF Suc.prems(2) body]] show ?case .
qed

lemma conversation_loop_roles:
  assumes "user_waiting (messages st)"
    and "\<forall>r \<in> set (requests st). user_waiting (request_messages r)"
  shows "map role (messages (final_state (conversation_loop e st))) =
           turn_roles (length (messages (final_state (conversation_loop e st)))) \<and>
         (\<forall>r \<in> set (requests (final_state (conversation_loop e st))).
            user_waiting (request_messages r))"
proof (rule conversation_loop_invariant
    [where I = "\<lambda>s. user_waiting (messages s) \<and>
                      (\<forall>r \<in> set (requests s). user_waiting (request_messages r))"
       and J = "\<lambda>s. map role (messages s) = turn_roles (length (messages s)) \<and>
                      (\<forall>r \<in> set (requests s). user_waiting (request_messages r))"])
  from assms
  show "user_waiting (messages st) \<and> (\<forall>r \<in> set (requests st). user_waiting (request_messages r))"
    by simp
next
  fix s s'
  assume "user_waiting (messages s) \<and> (\<forall>r \<in> set (requests s). user_waiting (request_messages r))"
    and "loop_body e s = Inr (True, s')"
  then show "user_waiting (messages s') \<and>
             (\<forall>r \<in> set (requests s'). user_waiting (request_messages r))"
    by (rule loop_body_user_waiting)
next
  fix s s'
  assume inv: "user_waiting (messages s) \<and>
               (\<forall>r \<in> set (requests s). user_waiting (request_messages r))"
    and body: "loop_body e s = Inr (False, s')"
  from loop_body_exit [OF body] inv
  show "map role (messages s') = turn_roles (length (messages s')) \<and>
        (\<forall>r \<in> set (requests s'). user_waiting (request_messages r))"
    by (auto simp: request_of_def user_waiting_def)
next
  fix s err s'
  assume inv: "user_waiting (messages s) \<and>
               (\<forall>r \<in> set (requests s). user_waiting (request_messages r))"
    and body: "loop_body e s = Inl (err, s')"
  from loop_body_Inl [OF body] inv
  show "map role (messages s') = turn_roles (length (messages s')) \<and>
        (\<forall>r \<in> set (requests s'). user_waiting (request_messages r))"
    by (auto simp: request_of_def user_waiting_def)
qed

lemma conversation_loop_ends_with_reply:
  assumes "user_waiting (messages st)" and "conversation_loop e st = Inr st'"
  shows "\<exists>msgs t. user_waiting msgs \<and>
           messages st' = msgs @ [\<lparr>role = ''assistant'', content = Str t\<rparr>]"
proof -
  have "\<forall>s'. conversation_loop e st = Inr s' \<longrightarrow>
          (\<exists>msgs t. user_waiting msgs \<and>
             messages s' = msgs @ [\<lparr>role = ''assistant'', content = Str t\<rparr>])"
  proof (rule conversation_loop_rule [where I = "\<lambda>s. user_waiting (messages s)"])
    show "user_waiting (messages st)" by fact
  next
    fix s s'
    assume "user_waiting (messages s)" and "loop_body e s = Inr (True, s')"
    with loop_body_continue [of e s s'] show "user_waiting (messages s')"
      by (auto simp: user_waiting_turn)
  next
    fix s s'
    assume "user_waiting (messages s)" and "loop_body e s = Inr (False, s')"
    with loop_body_exit [of e s s']
    show "\<forall>s''. Inr s' = Inr s'' \<longrightarrow>
            (\<exists>msgs t. user_waiting msgs \<and>
               messages s'' = msgs @ [\<lparr>role = ''assistant'', content = Str t\<rparr>])"
      by auto
  next
    fix s x
    show "\<forall>s''. Inl x = Inr s'' \<longrightarrow>
            (\<exists>msgs t. user_waiting msgs \<and>
               messages s'' = msgs @ [\<lparr>role = ''assistant'', content = Str t\<rparr>])"
      by simp
  qed
  with assms(2) show ?thesis by simp
qed

lemma transcript_labels:
  assumes "map role msgs = turn_roles (length msgs)"
  shows "map (\<lambda>m. upper (role m)) msgs =
           map (\<lambda>i. if even i then ''USER'' else ''ASSISTANT'') [0..<length msgs]"
proof (rule nth_equalityI)
  show "length (map (\<lambda>m. upper (role m)) msgs) =
        length (map (\<lambda>i. if even i then ''USER'' else ''ASSISTANT'') [0..<length msgs])"
    by simp
next
  fix i
  assume "i < length (map (\<lambda>m. upper (role m)) msgs)"
  then have i: "i < length msgs" by simp
  then have "role (msgs ! i) = map role msgs ! i" by simp
  with assms i have "role (msgs ! i) = (if even i then ''user'' else ''assistant'')"
    by (simp add: turn_roles_nth)
  moreover have "upper ''user'' = ''USER''" and "upper ''assistant'' = ''ASSISTANT''"
    by (simp_all add: upper_def upper_char_def ascii_uppercase_def ascii_lowercase_def)
  ultimately show "map (\<lambda>m. upper (role m)) msgs ! i =
        map (\<lambda>i. if even i then ''USER'' else ''ASSISTANT'') [0..<length msgs] ! i"
    using i by simp
qed


section \<open>The sentinel\<close>

text \<open>
  C1. Once the model has replied and the operator's line is read: a line that equals
  \<open>exit\<close> up to the case of its letters ends the loop, with the same outcome as the line
  \<open>exit\<close> itself, and the conversation is left as it was (the transcript is written from
  it, or the run ends with the error of a file that cannot be written). Any other line is
  appended as a message with the role \<open>user\<close> and the line as its content, and the loop
  goes on from there.
\<close>

theorem exit_sentinel:
  assumes "model_reply e st = Inr st1" and "stdin st1 = line # rest"
  shows "(lower line = ''exit'' \<longrightarrow>
            user_turn e st1 = user_turn e (st1\<lparr>stdin := ''exit'' # rest\<rparr>) \<and>
            (\<exists>st'. messages st' = messages st1 \<and> stdin st' = rest \<and>
               conversation_loop e st =
                 (if can_write e transcript_name then Inr st'
                  else Inl (OSError transcript_name, st')))) \<and>
         (lower line \<noteq> ''exit'' \<longrightarrow>
            (\<exists>st2. loop_body e st = Inr (True, st2) \<and>
               messages st2 = messages st1 @ [\<lparr>role = ''user'', content = Str line\<rparr>] \<and>
               stdin st2 = rest \<and>
               conversation_loop e st = conversation_loop e st2))"
proof (intro conjI impI)
  assume "lower line = ''exit''"
  with assms(2) show "user_turn e st1 = user_turn e (st1\<lparr>stdin := ''exit'' # rest\<rparr>)"
    by (rule user_turn_sentinel_same)
next
  assume "lower line = ''exit''"
  from user_turn_sentinel [OF assms(2) this, of e] obtain st'
    where st': "messages st' = messages st1" "stdin st' = rest"
      and u: "user_turn e st1 =
               (if can_write e transcript_name then Inr (False, st')
                else Inl (OSError transcript_name, st'))"
    by blast
  from assms(1) u have "conversation_loop e st =
      (if can_write e transcript_name then Inr st' else Inl (OSError transcript_name, st'))"
    by (subst conversation_loop.simps) (simp add: loop_body_def)
  with st' show "\<exists>st'. messages st' = messages st1 \<and> stdin st' = rest \<and>
               conversation_loop e st =
                 (if can_write e transcript_name then Inr st'
                  else Inl (OSError transcript_name, st'))"
    by blast
next
  assume "lower line \<noteq> ''exit''"
  from user_turn_other [OF assms(2) this, of e] obtain st2
    where u: "user_turn e st1 = Inr (True, st2)" and st2: "stdin st2 = rest"
      "messages st2 = messages st1 @ [\<lparr>role = ''user'', content = Str line\<rparr>]"
    by blast
  from assms(1) u have body: "loop_body e st = Inr (True, st2)"
    by (simp add: loop_body_def)
  then have "conversation_loop e st = conversation_loop e st2"
    by (subst conversation_loop.simps) simp
  with body st2 show "\<exists>st2. loop_body e st = Inr (True, st2) \<and>
               messages st2 = messages st1 @ [\<lparr>role = ''user'', content = Str line\<rparr>] \<and>
               stdin st2 = rest \<and>
               conversation_loop e st = conversation_loop e st2"
    by blast
qed

theorem exit_sentinel_witness:
  "(\<exists>st1. model_reply demo_env demo_state = Inr st1 \<and> stdin st1 = ''EXIT'' # [] \<and>
      lower ''EXIT'' = ''exit'' \<and>
      user_turn demo_env st1 = user_turn demo_env (st1\<lparr>stdin := ''exit'' # []\<rparr>) \<and>
      (\<exists>st'. messages st' = messages st1 \<and> stdin st' = [] \<and>
         conversation_loop demo_env demo_state = Inr st')) \<and>
   (\<exists>st1. model_reply demo_env (demo_state\<lparr>stdin := [''It leaks'']\<rparr>) = Inr st1 \<and>
      stdin st1 = ''It leaks'' # [] \<and> lower ''It leaks'' \<noteq> ''exit'' \<and>
      (\<exists>st2. loop_body demo_env (demo_state\<lparr>stdin := [''It leaks'']\<rparr>) = Inr (True, st2) \<and>
         messages st2 = messages st1 @ [\<lparr>role = ''user'', content = Str ''It leaks''\<rparr>] \<and>
         stdin st2 = [] \<and>
         conversation_loop demo_env (demo_state\<lparr>stdin := [''It leaks'']\<rparr>) =
           conversation_loop demo_env st2))"
proof (rule conjI)
  obtain st1 where r: "model_reply demo_env demo_state = Inr st1"
    and i: "stdin st1 = ''EXIT'' # []"
    by (simp add: model_reply_def demo_env_def demo_state_def Let_def print_def)
  have l: "lower ''EXIT'' = ''exit''"
    by (simp add: lower_def lower_char_def ascii_uppercase_def ascii_lowercase_def)
  have w: "can_write demo_env transcript_name"
    by (simp add: demo_env_def)
  from exit_sentinel [OF r i] l w r i
  show "\<exists>st1. model_reply demo_env demo_state = Inr st1 \<and> stdin st1 = ''EXIT'' # [] \<and>
      lower ''EXIT'' = ''exit'' \<and>
      user_turn demo_env st1 = user_turn demo_env (st1\<lparr>stdin := ''exit'' # []\<rparr>) \<and>
      (\<exists>st'. messages st' = messages st1 \<and> stdin st' = [] \<and>
         conversation_loop demo_env demo_state = Inr st')"
    by auto
next
  let ?st = "demo_state\<lparr>stdin := [''It leaks'']\<rparr>"
  obtain st1 where r: "model_reply demo_env ?st = Inr st1"
    and i: "stdin st1 = ''It leaks'' # []"
    by (simp add: model_reply_def demo_env_def demo_state_def Let_def print_def)
  have l: "lower ''It leaks'' \<noteq> ''exit''"
    by (simp add: lower_def)
  from exit_sentinel [OF r i] l r i
  show "\<exists>st1. model_reply demo_env ?st = Inr st1 \<and>
      stdin st1 = ''It leaks'' # [] \<and> lower ''It leaks'' \<noteq> ''exit'' \<and>
      (\<exists>st2. loop_body demo_env ?st = Inr (True, st2) \<and>
         messages st2 = messages st1 @ [\<lparr>role = ''user'', content = Str ''It leaks''\<rparr>] \<and>
         stdin st2 = [] \<and>
         conversation_loop demo_env ?st = conversation_loop demo_env st2)"
    by auto
qed

section \<open>The reply of the model\<close>

text \<open>
  C8. When the first block of the reply is a text segment, \<open>model_reply\<close> appends one
  message with the role \<open>assistant\<close> whose content is the text of that block, a plain
  string, and nothing has been read from the console at that point: the operator's line
  is read by \<open>user_turn\<close> from the state that already holds the message. Conversely, a
  reply after which the run goes on started with a text segment, and its message has been
  appended. For any other reply (the request fails, the reply has no block, or its first
  block is not text) the turn ends with an error after the request, and the conversation
  is as it was.
\<close>

theorem assistant_reply_appended:
  "(\<forall>t others. remote e (request_of (messages st)) = Some (TextBlock t # others) \<longrightarrow>
      (\<exists>st1. model_reply e st = Inr st1 \<and>
         messages st1 = messages st @ [\<lparr>role = ''assistant'', content = Str t\<rparr>] \<and>
         stdin st1 = stdin st \<and>
         loop_body e st = user_turn e st1)) \<and>
   (\<forall>st1. model_reply e st = Inr st1 \<longrightarrow>
      (\<exists>t others. remote e (request_of (messages st)) = Some (TextBlock t # others) \<and>
         messages st1 = messages st @ [\<lparr>role = ''assistant'', content = Str t\<rparr>] \<and>
         stdin st1 = stdin st)) \<and>
   ((\<forall>t others. remote e (request_of (messages st)) \<noteq> Some (TextBlock t # others)) \<longrightarrow>
      (\<exists>err. model_reply e st =
               Inl (err, st\<lparr>requests := requests st @ [request_of (messages st)]\<rparr>) \<and>
             loop_body e st =
               Inl (err, st\<lparr>requests := requests st @ [request_of (messages st)]\<rparr>) \<and>
             err = (case remote e (request_of (messages st)) of
                      None \<Rightarrow> APIError
                    | Some [] \<Rightarrow> IndexError
                    | Some (b # others) \<Rightarrow> AttributeError)))"
proof (intro conjI allI impI)
  fix t others
  assume "remote e (request_of (messages st)) = Some (TextBlock t # others)"
  then obtain st1 where r: "model_reply e st = Inr st1"
    by (simp add: model_reply_def Let_def)
  from model_reply_Inr [OF r] \<open>remote e (request_of (messages st)) = Some (TextBlock t # others)\<close>
  have "messages st1 = messages st @ [\<lparr>role = ''assistant'', content = Str t\<rparr>]"
    and "stdin st1 = stdin st"
    by auto
  moreover from r have "loop_body e st = user_turn e st1"
    by (simp add: loop_body_def)
  ultimately show "\<exists>st1. model_reply e st = Inr st1 \<and>
         messages st1 = messages st @ [\<lparr>role = ''assistant'', content = Str t\<rparr>] \<and>
         stdin st1 = stdin st \<and> loop_body e st = user_turn e st1"
    using r by blast
next
  fix st1
  assume "model_reply e st = Inr st1"
  from model_reply_Inr [OF this]
  show "\<exists>t others. remote e (request_of (messages st)) = Some (TextBlock t # others) \<and>
         messages st1 = messages st @ [\<lparr>role = ''assistant'', content = Str t\<rparr>] \<and>
         stdin st1 = stdin st"
    by auto
next
  assume no: "\<forall>t others. remote e (request_of (messages st)) \<noteq> Some (TextBlock t # others)"
  let ?st1 = "st\<lparr>requests := requests st @ [request_of (messages st)]\<rparr>"
  let ?err = "case remote e (request_of (messages st)) of
                None \<Rightarrow> APIError
              | Some [] \<Rightarrow> IndexError
              | Some (b # others) \<Rightarrow> AttributeError"
  from no have "model_reply e st = Inl (?err, ?st1)"
    by (auto simp: model_reply_def Let_def split: option.splits list.splits block.splits)
  moreover from this have "loop_body e st = Inl (?err, ?st1)"
    by (simp add: loop_body_def)
  ultimately show "\<exists>err. model_reply e st = Inl (err, ?st1) \<and> loop_body e st = Inl (err, ?st1) \<and>
      err = ?err"
    by blast
qed

theorem assistant_reply_appended_witness:
  "remote demo_env (request_of (messages demo_state)) = Some (TextBlock demo_reply # []) \<and>
   (\<exists>st1. model_reply demo_env demo_state = Inr st1 \<and>
      messages st1 =
        [\<lparr>role = ''user'', content = Parts [TextPart (review_text ''Good'')]\<rparr>,
         \<lparr>role = ''assistant'', content = Str demo_reply\<rparr>] \<and>
      stdin st1 = [''EXIT''] \<and>
      loop_body demo_env demo_state = user_turn demo_env st1) \<and>
   (\<forall>t others. remote other_first_env (request_of (messages demo_state)) \<noteq>
                 Some (TextBlock t # others)) \<and>
   loop_body other_first_env demo_state =
     Inl (AttributeError, demo_state\<lparr>requests := [request_of (messages demo_state)]\<rparr>)"
proof (intro conjI)
  show reply: "remote demo_env (request_of (messages demo_state)) = Some (TextBlock demo_reply # [])"
    by (simp add: demo_env_def)
  with assistant_reply_appended [of demo_env demo_state]
  obtain st1 where "model_reply demo_env demo_state = Inr st1"
    and "messages st1 = messages demo_state @ [\<lparr>role = ''assistant'', content = Str demo_reply\<rparr>]"
    and "stdin st1 = stdin demo_state"
    and "loop_body demo_env demo_state = user_turn demo_env st1"
    by blast
  then show "\<exists>st1. model_reply demo_env demo_state = Inr st1 \<and>
      messages st1 =
        [\<lparr>role = ''user'', content = Parts [TextPart (review_text ''Good'')]\<rparr>,
         \<lparr>role = ''assistant'', content = Str demo_reply\<rparr>] \<and>
      stdin st1 = [''EXIT''] \<and>
      loop_body demo_env demo_state = user_turn demo_env st1"
    by (auto simp: demo_state_def)
next
  show other: "\<forall>t others. remote other_first_env (request_of (messages demo_state)) \<noteq>
                 Some (TextBlock t # others)"
    by (simp add: other_first_env_def)
  have "remote other_first_env (request_of (messages demo_state)) = Some [OtherBlock, TextBlock ''Hi'']"
    by (simp add: other_first_env_def)
  with assistant_reply_appended [of other_first_env demo_state] other
  show "loop_body other_first_env demo_state =
     Inl (AttributeError, demo_state\<lparr>requests := [request_of (messages demo_state)]\<rparr>)"
    by (auto simp: demo_state_def)
qed

text \<open>
  A reply whose first block is not text but which holds a text segment further on: the
  program reads \<open>content[0].text\<close>, so the turn ends with \<open>AttributeError\<close> and no
  message is appended, although the reply has a first text segment.
\<close>

theorem first_text_segment_counterexample:
  "remote other_first_env (request_of (messages demo_state)) = Some [OtherBlock, TextBlock ''Hi''] \<and>
   first_text [OtherBlock, TextBlock ''Hi''] = Some ''Hi'' \<and>
   model_reply other_first_env demo_state =
     Inl (AttributeError, demo_state\<lparr>requests := [request_of (messages demo_state)]\<rparr>) \<and>
   messages (demo_state\<lparr>requests := [request_of (messages demo_state)]\<rparr>) = messages demo_state"
  by (simp add: other_first_env_def model_reply_def demo_state_def Let_def)

section \<open>The transcript\<close>

text \<open>
  C2. A run that ends normally leaves in \<open>amazon_review_conversation.txt\<close>, whatever
  the file held before, one block for each message of the conversation, in the order of
  the conversation: the role in upper case, a colon, a space, the text of the message
  (for a list of parts the text parts joined, the image parts left out) and a blank line.
  No other file changes.
\<close>

theorem transcript_written:
  assumes "create_amazon_review e st = Inr st'"
  shows "files st' transcript_name =
           Some (concat (map (\<lambda>m. transcript_block (upper (role m)) (message_text (content m)))
                          (messages st'))) \<and>
         (\<forall>p. p \<noteq> transcript_name \<longrightarrow> files st' p = files st p)"
proof -
  from assms obtain st1 where f: "first_message e st = Inr st1"
    and l: "conversation_loop e st1 = Inr st'"
    by (auto simp: create_amazon_review_def split: sum.splits)
  from first_message_Inr [OF f] have "files st1 = files st" by auto
  with conversation_loop_files [OF l] show ?thesis
    by (simp add: write_messages_blocks)
qed

theorem transcript_written_witness:
  "\<exists>st'. create_amazon_review demo_env (start [''Good'', ''EXIT''] demo_files) = Inr st' \<and>
     messages st' = [\<lparr>role = ''user'', content = Parts [TextPart (review_text ''Good'')]\<rparr>,
                     \<lparr>role = ''assistant'', content = Str demo_reply\<rparr>] \<and>
     files st' transcript_name =
       Some (''USER: Here is my initial product review:'' @ nl @ nl @ ''Good'' @ nl @ nl @ nl @ nl @
             ''ASSISTANT: Which model is it?'' @ nl @ nl) \<and>
     files st' ''notes.txt'' = Some ''n''"
proof -
  have "\<exists>st'. create_amazon_review demo_env (start [''Good'', ''EXIT''] demo_files) = Inr st' \<and>
     messages st' = [\<lparr>role = ''user'', content = Parts [TextPart (review_text ''Good'')]\<rparr>,
                     \<lparr>role = ''assistant'', content = Str demo_reply\<rparr>]"
    by (simp add: create_amazon_review_def first_message_def start_def print_def input_def
      get_image_files_def demo_env_def Let_def conversation_loop.simps loop_body_def
      model_reply_def user_turn_def lower_def lower_char_def ascii_uppercase_def
      ascii_lowercase_def review_text_def)
  then obtain st' where run: "create_amazon_review demo_env (start [''Good'', ''EXIT''] demo_files) = Inr st'"
    and msgs: "messages st' = [\<lparr>role = ''user'', content = Parts [TextPart (review_text ''Good'')]\<rparr>,
                     \<lparr>role = ''assistant'', content = Str demo_reply\<rparr>]"
    by blast
  from transcript_written [OF run] msgs
  have "files st' transcript_name =
       Some (''USER: Here is my initial product review:'' @ nl @ nl @ ''Good'' @ nl @ nl @ nl @ nl @
             ''ASSISTANT: Which model is it?'' @ nl @ nl)"
    and "files st' ''notes.txt'' = Some ''n''"
    by (simp_all add: transcript_block_def message_text_def review_text_def demo_reply_def
        upper_def upper_char_def ascii_uppercase_def ascii_lowercase_def transcript_name_def
        start_def demo_files_def)
  with run msgs show ?thesis by blast
qed

section \<open>The first message\<close>

text \<open>
  C3. With no \<open>images\<close> directory, whatever review is entered, the conversation starts
  with one message of the role \<open>user\<close> whose content is a single text part: the line
  \<open>Here is my initial product review:\<close>, an empty line, the review and an empty line.
  That message alone is the history of the first request. For the review
  \<open>Great blender, but lid leaks\<close> this is the instance that follows the theorem.
\<close>

theorem first_message_without_images:
  assumes "images_dir e = Absent" and "stdin st = review # rest"
  shows "\<exists>st1 rs.
           first_message e st = Inr st1 \<and>
           messages st1 =
             [\<lparr>role = ''user'',
               content = Parts [TextPart (''Here is my initial product review:'' @ nl @ nl @
                                          review @ nl @ nl)]\<rparr>] \<and>
           requests (final_state (create_amazon_review e st)) =
             requests st @ request_of (messages st1) # rs"
proof -
  from assms(1) have "get_image_files e = Inr []"
    by (simp add: get_image_files_def)
  from first_message_no_images [OF this assms(2)] obtain st1
    where f: "first_message e st = Inr st1" and r: "requests st1 = requests st"
      and m: "messages st1 = [\<lparr>role = ''user'', content = Parts [TextPart (review_text review)]\<rparr>]"
    by blast
  from conversation_loop_first_request [of e st1] r f
  obtain rs where "requests (final_state (create_amazon_review e st)) =
             requests st @ request_of (messages st1) # rs"
    by (auto simp: create_amazon_review_def)
  with f m show ?thesis
    by (auto simp: review_text_def)
qed

theorem first_message_without_images_witness:
  "images_dir demo_env = Absent \<and>
   (\<exists>st1 rs.
      first_message demo_env (start [''Great blender, but lid leaks''] Map.empty) = Inr st1 \<and>
      messages st1 =
        [\<lparr>role = ''user'',
          content = Parts [TextPart (''Here is my initial product review:'' @ [CHR 0x0A, CHR 0x0A] @
                                     ''Great blender, but lid leaks'' @ [CHR 0x0A, CHR 0x0A])]\<rparr>] \<and>
      requests (final_state (create_amazon_review demo_env
                               (start [''Great blender, but lid leaks''] Map.empty))) =
        request_of (messages st1) # rs)"
proof -
  have a: "images_dir demo_env = Absent"
    by (simp add: demo_env_def)
  have i: "stdin (start [''Great blender, but lid leaks''] Map.empty) =
             ''Great blender, but lid leaks'' # []"
    by (simp add: start_def)
  from first_message_without_images [OF a i] a show ?thesis
    by (simp add: nl_def start_def)
qed




text \<open>
  C7. When the listing holds a file with a recognised extension that cannot be read, the
  run ends with the error of such a file, raised by \<open>encode_image\<close>: the first
  unreadable one in the order of the listing. No request has been sent, no message has
  been built from the images read before it, and no file has changed.
\<close>

theorem unreadable_image_aborts:
  assumes "images_dir e = Listing names"
    and "name \<in> set names" and "has_image_extension name"
    and "fs (os_path_join ''images'' name) = None"
  shows "\<exists>p st'.
           create_amazon_review e (start (review # rest) fs) = Inl (OSError p, st') \<and>
           p \<in> set (map (os_path_join ''images'') (filter has_image_extension names)) \<and>
           fs p = None \<and>
           requests st' = [] \<and> messages st' = [] \<and> files st' = fs"
proof -
  let ?ps = "map (os_path_join ''images'') (filter has_image_extension names)"
  let ?st = "start (review # rest) fs"
  from assms(1) have g: "get_image_files e = Inr ?ps"
    by (simp add: get_image_files_def scan_listing_filter)
  from assms(2,3) have "os_path_join ''images'' name \<in> set ?ps"
    by simp
  moreover from assms(4) have "files ?st (os_path_join ''images'' name) = None"
    by (simp add: start_def)
  ultimately obtain q where q: "q \<in> set ?ps" "files ?st q = None"
    and enc: "encode_images ?st ?ps [] = Inl (OSError q)"
    using encode_images_unreadable [of "os_path_join ''images'' name" ?ps ?st "[]"]
    by blast
  from q(1) have ne: "?ps \<noteq> []"
    by (metis empty_iff empty_set)
  obtain st3 where i: "input ''> '' (print (nl @ ''Please enter your initial product experience/review:'')
                (print (nl @ ''=== AMAZON REVIEW FRAMEWORK ==='') ?st)) = Inr (review, st3)"
    and st3: "files st3 = fs" "requests st3 = []" "messages st3 = []"
    by (simp add: input_def print_def start_def Let_def)
  from encode_images_files [of st3 ?st ?ps "[]"] st3 enc
  have "encode_images st3 ?ps [] = Inl (OSError q)"
    by (simp add: start_def)
  with i g ne have "first_message e ?st = Inl (OSError q, st3)"
    by (simp add: first_message_def Let_def)
  then have "create_amazon_review e ?st = Inl (OSError q, st3)"
    by (simp add: create_amazon_review_def)
  with q st3 show ?thesis
    by (auto simp: start_def)
qed

theorem unreadable_image_aborts_witness:
  "images_dir listing_env = Listing [''notes.txt'', ''a.PNG'', ''b.jpeg''] \<and>
   ''b.jpeg'' \<in> set [''notes.txt'', ''a.PNG'', ''b.jpeg''] \<and> has_image_extension ''b.jpeg'' \<and>
   [''images/a.PNG'' \<mapsto> ''Man''] (os_path_join ''images'' ''b.jpeg'') = None \<and>
   (\<exists>st'. create_amazon_review listing_env (start [''Good'', ''exit''] [''images/a.PNG'' \<mapsto> ''Man'']) =
            Inl (OSError ''images/b.jpeg'', st') \<and>
      requests st' = [] \<and> messages st' = [])"
proof -
  have a: "images_dir listing_env = Listing [''notes.txt'', ''a.PNG'', ''b.jpeg'']"
    by (simp add: listing_env_def)
  have b: "''b.jpeg'' \<in> set [''notes.txt'', ''a.PNG'', ''b.jpeg'']"
    by simp
  have c: "has_image_extension ''b.jpeg''"
    by (simp add: has_image_extension_def image_extensions_def lower_def lower_char_def
        ascii_uppercase_def ascii_lowercase_def)
  have d: "[''images/a.PNG'' \<mapsto> ''Man''] (os_path_join ''images'' ''b.jpeg'') = None"
    by (simp add: os_path_join_def startswith_def endswith_def)
  have f: "filter has_image_extension [''notes.txt'', ''a.PNG'', ''b.jpeg''] = [''a.PNG'', ''b.jpeg'']"
    by (simp add: has_image_extension_def image_extensions_def lower_def lower_char_def
        ascii_uppercase_def ascii_lowercase_def)
  from unreadable_image_aborts [where fs = "[''images/a.PNG'' \<mapsto> ''Man'']" and review = "''Good''"
      and rest = "[''exit'']", OF a b c d] f
  have "\<exists>st'. create_amazon_review listing_env (start [''Good'', ''exit''] [''images/a.PNG'' \<mapsto> ''Man'']) =
            Inl (OSError ''images/b.jpeg'', st') \<and>
      requests st' = [] \<and> messages st' = []"
    by (auto simp: os_path_join_def startswith_def endswith_def)
  with a b c d show ?thesis by blast
qed

text \<open>
  C4. The claim gives every image part the label \<open>image/\<close> with the extension of its
  file. A directory that holds the one readable file \<open>.png\<close> shows what the program does
  for a name that is nothing but the extension: the name ends in \<open>.png\<close> and the file
  becomes an image part, with its bytes in base64, but the label of the part is
  \<open>image/\<close>, since \<open>splitext\<close> takes the leading dot for the start of the name.
\<close>

theorem dotfile_media_type:
  "has_image_extension ''.png'' \<and>
   (\<exists>st1. first_message dotfile_env (start [''Good''] [''images/.png'' \<mapsto> ''M'']) = Inr st1 \<and>
      messages st1 =
        [\<lparr>role = ''user'',
          content = Parts [TextPart (review_text ''Good'' @ images_sentence),
                           ImagePart \<lparr>source_type = ''base64'', media_type = ''image/'',
                                      data = ''TQ==''\<rparr>]\<rparr>])"
proof
  show "has_image_extension ''.png''"
    by (simp add: has_image_extension_def image_extensions_def lower_def lower_char_def
        ascii_uppercase_def ascii_lowercase_def)
  have l: "list_ex (\<lambda>ext. endswith (lower ''.png'') ext) image_extensions"
    by (simp add: image_extensions_def endswith_def lower_def lower_char_def
        ascii_uppercase_def ascii_lowercase_def)
  have j: "os_path_join ''images'' ''.png'' = ''images/.png''"
    by (simp add: os_path_join_def startswith_def endswith_def)
  have s: "splitext ''images/.png'' = (''images/.png'', [])"
    by (simp add: splitext_def)
  from l j have g: "get_image_files dotfile_env = Inr [''images/.png'']"
    by (simp add: get_image_files_def dotfile_env_def)
  show "\<exists>st1. first_message dotfile_env (start [''Good''] [''images/.png'' \<mapsto> ''M'']) = Inr st1 \<and>
      messages st1 =
        [\<lparr>role = ''user'',
          content = Parts [TextPart (review_text ''Good'' @ images_sentence),
                           ImagePart \<lparr>source_type = ''base64'', media_type = ''image/'',
                                      data = ''TQ==''\<rparr>]\<rparr>]"
    by (simp add: first_message_def g Let_def input_def print_def start_def encode_image_def
        s b64_char_def b64_alphabet_def review_text_def)
qed

section \<open>The conversation\<close>

text \<open>
  C5. After \<open>n\<close> turns (\<open>n\<close> replies of the model and \<open>n\<close> lines of the operator, none
  of them the sentinel) the conversation has \<open>1 + 2 * n\<close> messages. It only grows at its
  end: the conversation after any smaller number of turns is a prefix of it, so is the
  history of every request sent so far, and it is itself a prefix of the conversation
  with which the run ends.
\<close>

theorem conversation_append_only:
  assumes "first_message e (start lines fs) = Inr st1" and "after_turns e n st1 = Some st'"
  shows "length (messages st') = 1 + 2 * n \<and>
         (\<forall>k \<le> n. \<exists>s. after_turns e k st1 = Some s \<and> prefix (messages s) (messages st')) \<and>
         (\<forall>r \<in> set (requests st'). prefix (request_messages r) (messages st')) \<and>
         prefix (messages st')
           (messages (final_state (create_amazon_review e (start lines fs))))"
proof (intro conjI allI impI)
  from first_message_Inr [OF assms(1)] have one: "length (messages st1) = 1"
    by (auto split: if_splits)
  with after_turns_messages [OF assms(2)] show "length (messages st') = 1 + 2 * n"
    by auto
next
  fix k
  assume "k \<le> n"
  from after_turns_split [OF assms(2) this] obtain s
    where s: "after_turns e k st1 = Some s" and r: "after_turns e (n - k) s = Some st'"
    by blast
  from after_turns_messages [OF r] have "prefix (messages s) (messages st')"
    by auto
  with s show "\<exists>s. after_turns e k st1 = Some s \<and> prefix (messages s) (messages st')"
    by blast
next
  from first_message_Inr [OF assms(1)] have "requests st1 = []"
    by (auto simp: start_def)
  then have "\<forall>r \<in> set (requests st1). prefix (request_messages r) (messages st1)"
    by simp
  from after_turns_histories [OF assms(2) this]
  show "\<forall>r \<in> set (requests st'). prefix (request_messages r) (messages st')" .
next
  from assms(1) after_turns_loop [OF assms(2)]
  have "create_amazon_review e (start lines fs) = conversation_loop e st'"
    by (simp add: create_amazon_review_def)
  with conversation_loop_messages [of st' e]
  show "prefix (messages st')
           (messages (final_state (create_amazon_review e (start lines fs))))"
    by simp
qed

theorem conversation_append_only_witness:
  "\<exists>st1 st'.
     first_message demo_env (start [''Good'', ''It leaks'', ''EXIT''] Map.empty) = Inr st1 \<and>
     after_turns demo_env (Suc 0) st1 = Some st' \<and>
     messages st' =
       [\<lparr>role = ''user'', content = Parts [TextPart (review_text ''Good'')]\<rparr>,
        \<lparr>role = ''assistant'', content = Str demo_reply\<rparr>,
        \<lparr>role = ''user'', content = Str ''It leaks''\<rparr>] \<and>
     length (messages st') = 1 + 2 * Suc 0 \<and>
     (\<forall>k \<le> Suc 0. \<exists>s. after_turns demo_env k st1 = Some s \<and> prefix (messages s) (messages st')) \<and>
     (\<forall>r \<in> set (requests st'). prefix (request_messages r) (messages st')) \<and>
     prefix (messages st')
       (messages (final_state (create_amazon_review demo_env
                                 (start [''Good'', ''It leaks'', ''EXIT''] Map.empty))))"
proof -
  obtain st1 where f: "first_message demo_env (start [''Good'', ''It leaks'', ''EXIT''] Map.empty) = Inr st1"
    and m1: "messages st1 = [\<lparr>role = ''user'', content = Parts [TextPart (review_text ''Good'')]\<rparr>]"
    and i1: "stdin st1 = [''It leaks'', ''EXIT'']"
    by (simp add: first_message_def start_def print_def input_def get_image_files_def
        demo_env_def Let_def review_text_def)
  have l: "lower ''It leaks'' \<noteq> ''exit''"
    by (simp add: lower_def)
  with m1 i1 obtain st' where a: "after_turns demo_env (Suc 0) st1 = Some st'"
    and m': "messages st' =
       [\<lparr>role = ''user'', content = Parts [TextPart (review_text ''Good'')]\<rparr>,
        \<lparr>role = ''assistant'', content = Str demo_reply\<rparr>,
        \<lparr>role = ''user'', content = Str ''It leaks''\<rparr>]"
    by (simp add: loop_body_def model_reply_def user_turn_def print_def input_def
        demo_env_def Let_def)
  from conversation_append_only [OF f a] f a m' show ?thesis
    by blast
qed

section \<open>The directive\<close>

text \<open>
  C9. However a run ends, every request it has sent carries the same directive, the
  constant \<open>system_prompt\<close>, and the directive is never appended to the conversation:
  each message is exactly the first message (the header, the operator's review, the
  sentence about images and the image parts, nothing else), a reply of the remote model,
  or a line typed by the operator. So a message has the directive as its text only when
  the model or the operator supplied it. The transcript of a run that ends normally is
  written from the texts of these messages and holds nothing else.
\<close>

theorem directive_constant:
  "(\<forall>r \<in> set (requests (final_state (create_amazon_review e (start lines fs)))).
      system r = system_prompt) \<and>
   (\<forall>m \<in> set (messages (final_state (create_amazon_review e (start lines fs)))).
      from_run e lines fs (requests (final_state (create_amazon_review e (start lines fs)))) m) \<and>
   (\<forall>m \<in> set (messages (final_state (create_amazon_review e (start lines fs)))).
      message_text (content m) = system_prompt \<longrightarrow>
      (\<exists>r \<in> set (requests (final_state (create_amazon_review e (start lines fs)))).
         \<exists>others. remote e r = Some (TextBlock system_prompt # others)) \<or>
      system_prompt \<in> set lines) \<and>
   (\<forall>st'. create_amazon_review e (start lines fs) = Inr st' \<longrightarrow>
      files st' transcript_name =
        Some (concat (map (\<lambda>m. transcript_block (upper (role m)) (message_text (content m)))
                       (messages st'))))"
proof -
  let ?final = "final_state (create_amazon_review e (start lines fs))"
  have origin: "(\<forall>r \<in> set (requests ?final). system r = system_prompt) \<and>
      (\<forall>m \<in> set (messages ?final). from_run e lines fs (requests ?final) m)"
  proof (cases "first_message e (start lines fs)")
    case (Inl x)
    obtain err s where x: "x = (err, s)" by (cases x)
    with Inl first_message_Inl [of e "start lines fs" err s]
    have "messages s = []" and "requests s = []"
      by (simp_all add: start_def)
    with Inl x show ?thesis
      by (simp add: final_state_first_message)
  next
    case (Inr st1)
    from first_message_Inr [OF Inr] obtain review image_files
      where i: "lines = review # stdin st1" and r: "requests st1 = []"
        and g: "get_image_files e = Inr image_files"
        and m: "if image_files = []
              then messages st1 = [\<lparr>role = ''user'', content = Parts [TextPart (review_text review)]\<rparr>]
              else \<exists>image_content.
                     encode_images (start lines fs) image_files [] = Inr image_content \<and>
                     messages st1 =
                       [\<lparr>role = ''user'',
                         content = Parts (TextPart (review_text review @ images_sentence) #
                                          image_content)\<rparr>]"
      by (auto simp: start_def)
    from i have sub: "set (stdin st1) \<subseteq> set lines" and rv: "review \<in> set lines"
      by auto
    have "messages st1 =
        [\<lparr>role = ''user'',
          content = Parts
            (TextPart (review_text review @ (if image_files = [] then [] else images_sentence)) #
             map (image_part fs) image_files)\<rparr>]"
    proof (cases "image_files = []")
      case True
      with m show ?thesis by simp
    next
      case False
      with m obtain image_content
        where enc: "encode_images (start lines fs) image_files [] = Inr image_content"
          and ms: "messages st1 =
                       [\<lparr>role = ''user'',
                         content = Parts (TextPart (review_text review @ images_sentence) #
                                          image_content)\<rparr>]"
        by auto
      from encode_images_Inr [OF enc] have "image_content = map (image_part fs) image_files"
        by (simp add: start_def)
      with ms False show ?thesis by simp
    qed
    moreover from g rv
    have "from_run e lines fs (requests st1)
        \<lparr>role = ''user'',
          content = Parts
            (TextPart (review_text review @ (if image_files = [] then [] else images_sentence)) #
             map (image_part fs) image_files)\<rparr>"
      unfolding from_run_def by blast
    ultimately have "\<forall>m \<in> set (messages st1). from_run e lines fs (requests st1) m"
      by simp
    with conversation_loop_origin [OF sub, of e fs] r Inr show ?thesis
      by (simp add: final_state_first_message)
  qed
  have directive: "\<forall>m \<in> set (messages ?final).
      message_text (content m) = system_prompt \<longrightarrow>
      (\<exists>r \<in> set (requests ?final). \<exists>others. remote e r = Some (TextBlock system_prompt # others)) \<or>
      system_prompt \<in> set lines"
  proof (intro ballI impI)
    fix m
    assume "m \<in> set (messages ?final)" and t: "message_text (content m) = system_prompt"
    with origin have "from_run e lines fs (requests ?final) m"
      by blast
    then consider
      (first) review image_files where
        "m = \<lparr>role = ''user'',
              content = Parts
                (TextPart (review_text review @
                           (if image_files = [] then [] else images_sentence)) #
                 map (image_part fs) image_files)\<rparr>"
      | (reply) r u others where "r \<in> set (requests ?final)"
          "remote e r = Some (TextBlock u # others)" "m = \<lparr>role = ''assistant'', content = Str u\<rparr>"
      | (line) line where "line \<in> set lines" "m = \<lparr>role = ''user'', content = Str line\<rparr>"
      unfolding from_run_def by blast
    then show "(\<exists>r \<in> set (requests ?final).
                  \<exists>others. remote e r = Some (TextBlock system_prompt # others)) \<or>
               system_prompt \<in> set lines"
    proof cases
      case first
      with t have "review_text review @ (if image_files = [] then [] else images_sentence) =
          system_prompt"
        by (simp add: message_text_first)
      with review_text_not_directive show ?thesis
        by blast
    next
      case reply
      with t have "u = system_prompt"
        by (simp add: message_text_def)
      with reply show ?thesis by blast
    next
      case line
      with t have "line = system_prompt"
        by (simp add: message_text_def)
      with line show ?thesis by blast
    qed
  qed
  have transcript: "\<forall>st'. create_amazon_review e (start lines fs) = Inr st' \<longrightarrow>
      files st' transcript_name =
        Some (concat (map (\<lambda>m. transcript_block (upper (role m)) (message_text (content m)))
                       (messages st')))"
  proof (intro allI impI)
    fix st'
    assume "create_amazon_review e (start lines fs) = Inr st'"
    then obtain st1 where "conversation_loop e st1 = Inr st'"
      by (auto simp: create_amazon_review_def split: sum.splits)
    from conversation_loop_files [OF this]
    show "files st' transcript_name =
        Some (concat (map (\<lambda>m. transcript_block (upper (role m)) (message_text (content m)))
                       (messages st')))"
      by (simp add: write_messages_blocks)
  qed
  from origin directive transcript show ?thesis by blast
qed

theorem directive_constant_witness:
  "\<exists>r m. r \<in> set (requests (final_state (create_amazon_review demo_env
                                              (start [''Good'', ''EXIT''] Map.empty)))) \<and>
     system r = system_prompt \<and>
     m \<in> set (messages (final_state (create_amazon_review demo_env
                                        (start [''Good'', ''EXIT''] Map.empty)))) \<and>
     m = \<lparr>role = ''assistant'', content = Str demo_reply\<rparr> \<and>
     from_run demo_env [''Good'', ''EXIT''] Map.empty
       (requests (final_state (create_amazon_review demo_env
                                 (start [''Good'', ''EXIT''] Map.empty)))) m \<and>
     message_text (content m) \<noteq> system_prompt"
proof -
  let ?final = "final_state (create_amazon_review demo_env (start [''Good'', ''EXIT''] Map.empty))"
  let ?first = "\<lparr>role = ''user'', content = Parts [TextPart (review_text ''Good'')]\<rparr>"
  have "requests ?final = [request_of [?first]] \<and>
        messages ?final = [?first, \<lparr>role = ''assistant'', content = Str demo_reply\<rparr>]"
    by (simp add: create_amazon_review_def first_message_def start_def print_def input_def
      get_image_files_def demo_env_def Let_def conversation_loop.simps loop_body_def
      model_reply_def user_turn_def lower_def lower_char_def ascii_uppercase_def
      ascii_lowercase_def review_text_def final_state_def)
  then have "request_of [?first] \<in> set (requests ?final)"
    and "\<lparr>role = ''assistant'', content = Str demo_reply\<rparr> \<in> set (messages ?final)"
    by simp_all
  moreover have "message_text (content \<lparr>role = ''assistant'', content = Str demo_reply\<rparr>) \<noteq>
      system_prompt"
    by (simp add: message_text_def demo_reply_def system_prompt_def nl_def)
  ultimately show ?thesis
    using directive_constant [of demo_env "[''Good'', ''EXIT'']" Map.empty]
    by blast
qed

section \<open>The alternation of the roles\<close>

text \<open>
  C10. However a run ends, the roles of its conversation alternate, starting with
  \<open>user\<close>. The history of every request that was sent alternates in the same way and
  ends with a message of the user. At the head of the loop, after \<open>n\<close> turns, the roles
  are those of \<open>1 + 2 * n\<close> alternating messages. A run that ends normally leaves a
  conversation of even length from a first message of the user to a last message of the
  assistant, and the labels of the blocks of its transcript are \<open>USER\<close> and
  \<open>ASSISTANT\<close> in turn.
\<close>

theorem roles_alternate:
  "map role (messages (final_state (create_amazon_review e (start lines fs)))) =
     turn_roles (length (messages (final_state (create_amazon_review e (start lines fs))))) \<and>
   (\<forall>r \<in> set (requests (final_state (create_amazon_review e (start lines fs)))).
      map role (request_messages r) = turn_roles (length (request_messages r)) \<and>
      request_messages r \<noteq> [] \<and> role (last (request_messages r)) = ''user'') \<and>
   (\<forall>st1 n s. first_message e (start lines fs) = Inr st1 \<longrightarrow> after_turns e n st1 = Some s \<longrightarrow>
      map role (messages s) = turn_roles (1 + 2 * n)) \<and>
   (\<forall>st'. create_amazon_review e (start lines fs) = Inr st' \<longrightarrow>
      messages st' \<noteq> [] \<and> role (hd (messages st')) = ''user'' \<and>
      role (last (messages st')) = ''assistant'' \<and> even (length (messages st')) \<and>
      files st' transcript_name =
        Some (concat (map (\<lambda>m. transcript_block (upper (role m)) (message_text (content m)))
                       (messages st'))) \<and>
      map (\<lambda>m. upper (role m)) (messages st') =
        map (\<lambda>i. if even i then ''USER'' else ''ASSISTANT'') [0..<length (messages st')])"
proof (cases "first_message e (start lines fs)")
  case (Inl x)
  obtain err s where x: "x = (err, s)" by (cases x)
  with Inl first_message_Inl [of e "start lines fs" err s]
  have "messages s = []" and "requests s = []"
    by (simp_all add: start_def)
  with Inl x show ?thesis
    by (simp add: create_amazon_review_def final_state_def)
next
  case (Inr st1)
  let ?final = "final_state (create_amazon_review e (start lines fs))"
  from first_message_user_waiting [OF Inr] have w: "user_waiting (messages st1)" .
  from first_message_Inr [OF Inr] have r: "requests st1 = []"
    by (auto simp: start_def)
  then have rw: "\<forall>r \<in> set (requests st1). user_waiting (request_messages r)"
    by simp
  from Inr have final: "?final = final_state (conversation_loop e st1)"
    by (simp add: final_state_first_message)
  from conversation_loop_roles [OF w rw, of e] final
  have a: "map role (messages ?final) = turn_roles (length (messages ?final))"
    and b: "\<forall>r \<in> set (requests ?final). user_waiting (request_messages r)"
    by simp_all
  from b have b': "\<forall>r \<in> set (requests ?final).
      map role (request_messages r) = turn_roles (length (request_messages r)) \<and>
      request_messages r \<noteq> [] \<and> role (last (request_messages r)) = ''user''"
    using user_waiting_last by (auto simp: user_waiting_def)
  have c: "\<forall>st1 n s. first_message e (start lines fs) = Inr st1 \<longrightarrow> after_turns e n st1 = Some s \<longrightarrow>
      map role (messages s) = turn_roles (1 + 2 * n)"
  proof (intro allI impI)
    fix st2 n s
    assume "first_message e (start lines fs) = Inr st2" and t: "after_turns e n st2 = Some s"
    with Inr have t: "after_turns e n st1 = Some s" by simp
    from first_message_Inr [OF Inr] have "length (messages st1) = 1"
      by (auto split: if_splits)
    with after_turns_messages [OF t] have "length (messages s) = 1 + 2 * n"
      by auto
    moreover from after_turns_user_waiting [OF t] w rw
    have "map role (messages s) = turn_roles (length (messages s))"
      by (simp add: user_waiting_def)
    ultimately show "map role (messages s) = turn_roles (1 + 2 * n)"
      by simp
  qed
  have d: "\<forall>st'. create_amazon_review e (start lines fs) = Inr st' \<longrightarrow>
      messages st' \<noteq> [] \<and> role (hd (messages st')) = ''user'' \<and>
      role (last (messages st')) = ''assistant'' \<and> even (length (messages st')) \<and>
      files st' transcript_name =
        Some (concat (map (\<lambda>m. transcript_block (upper (role m)) (message_text (content m)))
                       (messages st'))) \<and>
      map (\<lambda>m. upper (role m)) (messages st') =
        map (\<lambda>i. if even i then ''USER'' else ''ASSISTANT'') [0..<length (messages st')]"
  proof (intro allI impI)
    fix st'
    assume "create_amazon_review e (start lines fs) = Inr st'"
    with Inr have l: "conversation_loop e st1 = Inr st'"
      by (simp add: create_amazon_review_def)
    from conversation_loop_ends_with_reply [OF w l] obtain msgs t
      where u: "user_waiting msgs"
        and m: "messages st' = msgs @ [\<lparr>role = ''assistant'', content = Str t\<rparr>]"
      by blast
    from user_waiting_last [OF u] m
    have "messages st' \<noteq> []" and "role (hd (messages st')) = ''user''"
      and "role (last (messages st')) = ''assistant''"
      by simp_all
    moreover from u m have "even (length (messages st'))"
      by (simp add: user_waiting_def)
    moreover from conversation_loop_files [OF l]
    have "files st' transcript_name =
        Some (concat (map (\<lambda>m. transcript_block (upper (role m)) (message_text (content m)))
                       (messages st')))"
      by (simp add: write_messages_blocks)
    moreover from l a final
    have "map role (messages st') = turn_roles (length (messages st'))"
      by (simp add: final_state_def)
    then have "map (\<lambda>m. upper (role m)) (messages st') =
        map (\<lambda>i. if even i then ''USER'' else ''ASSISTANT'') [0..<length (messages st')]"
      by (rule transcript_labels)
    ultimately show "messages st' \<noteq> [] \<and> role (hd (messages st')) = ''user'' \<and>
      role (last (messages st')) = ''assistant'' \<and> even (length (messages st')) \<and>
      files st' transcript_name =
        Some (concat (map (\<lambda>m. transcript_block (upper (role m)) (message_text (content m)))
                       (messages st'))) \<and>
      map (\<lambda>m. upper (role m)) (messages st') =
        map (\<lambda>i. if even i then ''USER'' else ''ASSISTANT'') [0..<length (messages st')]"
      by blast
  qed
  from a b' c d show ?thesis by blast
qed

theorem roles_alternate_witness:
  "\<exists>st'. create_amazon_review demo_env (start [''Good'', ''It leaks'', ''EXIT''] Map.empty) = Inr st' \<and>
     length (messages st') = 4 \<and>
     map role (messages st') = [''user'', ''assistant'', ''user'', ''assistant''] \<and>
     role (last (messages st')) = ''assistant'' \<and>
     map (\<lambda>m. upper (role m)) (messages st') = [''USER'', ''ASSISTANT'', ''USER'', ''ASSISTANT''] \<and>
     (\<exists>r \<in> set (requests st'). role (last (request_messages r)) = ''user'')"
proof -
  let ?st = "start [''Good'', ''It leaks'', ''EXIT''] Map.empty"
  have "\<exists>st'. create_amazon_review demo_env ?st = Inr st' \<and>
     length (messages st') = Suc (Suc (Suc (Suc 0))) \<and> requests st' \<noteq> []"
    by (simp add: create_amazon_review_def first_message_def start_def print_def input_def
      get_image_files_def demo_env_def Let_def conversation_loop.simps loop_body_def
      model_reply_def user_turn_def lower_def lower_char_def ascii_uppercase_def
      ascii_lowercase_def)
  then obtain st' where run: "create_amazon_review demo_env ?st = Inr st'"
    and len: "length (messages st') = Suc (Suc (Suc (Suc 0)))" and req: "requests st' \<noteq> []"
    by blast
  from run have final: "final_state (create_amazon_review demo_env ?st) = st'"
    by (simp add: final_state_def)
  from req obtain r where r: "r \<in> set (requests st')"
    by (cases "requests st'") auto
  from roles_alternate [of demo_env "[''Good'', ''It leaks'', ''EXIT'']" Map.empty] run final len r
  have "map role (messages st') = [''user'', ''assistant'', ''user'', ''assistant'']"
    and "role (last (messages st')) = ''assistant''"
    and "map (\<lambda>m. upper (role m)) (messages st') = [''USER'', ''ASSISTANT'', ''USER'', ''ASSISTANT'']"
    and "role (last (request_messages r)) = ''user''"
    by (simp_all add: upt_rec)
  with run len r show ?thesis
    by auto
qed

end
